theory Spec2Isabelle
  imports Complex_Main
begin

section \<open>PageRank by damped power iteration (pr.py)\<close>

text \<open>
  The embedding follows \<^verbatim>\<open>pr.py\<close> function by function. NumPy's float32 and
  float64 values are idealised as exact real numbers: every statement below is about
  the arithmetic the program writes down, not about its rounding. Python integers are
  \<open>int\<close>. An exception is a value \<open>Inl e\<close>; nothing else is returned with it.
\<close>

datatype py_error = AssertionError | IndexError | ValueError | OverflowError

subsection \<open>Dense vectors\<close>

type_synonym vec = "real list"

text \<open>\<^verbatim>\<open>lin.norm(v, 1)\<close>: the sum of the absolute values.\<close>

definition norm1 :: "vec \<Rightarrow> real" where
  "norm1 v = sum_list (map abs v)"

text \<open>\<^verbatim>\<open>np.dot(dangle_vec, r_old)\<close>, an int8 vector against a float vector.\<close>

definition dot :: "int list \<Rightarrow> vec \<Rightarrow> real" where
  "dot d v = sum_list (map2 (\<lambda>a b. of_int a * b) d v)"

definition scale :: "real \<Rightarrow> vec \<Rightarrow> vec" where
  "scale c v = map (\<lambda>x. c * x) v"

definition vadd :: "vec \<Rightarrow> vec \<Rightarrow> vec" where
  "vadd a b = map2 (\<lambda>x y. x + y) a b"

definition vsub :: "vec \<Rightarrow> vec \<Rightarrow> vec" where
  "vsub a b = map2 (\<lambda>x y. x - y) a b"

subsection \<open>The sparse matrix\<close>

text \<open>
  \<^verbatim>\<open>link_mat\<close> is a SciPy sparse matrix. It is kept as its shape and its list of
  entries (row, column, value); entries with the same position add up, as they do when
  SciPy converts the coordinate format to CSR.
\<close>

record sparse =
  nrows :: nat
  ncols :: nat
  entries :: "(nat \<times> nat \<times> real) list"

text \<open>\<^verbatim>\<open>link_mat * r_old\<close>: the matrix-vector product.\<close>

definition matvec :: "sparse \<Rightarrow> vec \<Rightarrow> vec" where
  "matvec m v =
     map (\<lambda>i. sum_list (map (\<lambda>(row, col, w). if row = i then w * v ! col else 0) (entries m)))
         [0..<nrows m]"

subsection \<open>One pass of the loop body (lines 61 to 67)\<close>

text \<open>
  The body returns the new \<^verbatim>\<open>r\<close> and the new \<^verbatim>\<open>residual\<close>. When the norm in
  line 65 is zero on a vector that has elements, NumPy's division leaves NaN in
  \<^verbatim>\<open>r\<close> and \<^verbatim>\<open>lin.norm\<close> in line 67 refuses the non-finite array with a
  ValueError. On an empty vector the division does nothing.
\<close>

definition unnormalized :: "sparse \<Rightarrow> int list \<Rightarrow> real \<Rightarrow> vec \<Rightarrow> vec \<Rightarrow> vec" where
  "unnormalized link_mat dangle_vec damp u r_old =
     vadd (vadd (scale (damp * dot dangle_vec r_old) u) (scale (1 - damp) u))
          (scale damp (matvec link_mat r_old))"

definition iteration :: "sparse \<Rightarrow> int list \<Rightarrow> real \<Rightarrow> vec \<Rightarrow> vec \<Rightarrow> py_error + vec \<times> real" where
  "iteration link_mat dangle_vec damp u r =
     (let r_old = r;
          r3 = unnormalized link_mat dangle_vec damp u r_old;
          nrm = norm1 r3
      in if r3 \<noteq> [] \<and> nrm = 0 then Inl ValueError
         else let r4 = map (\<lambda>x. x / nrm) r3
              in Inr (r4, norm1 (vsub r_old r4)))"

subsection \<open>The loop and \<^verbatim>\<open>pageRank\<close>\<close>

text \<open>
  The loop state is \<^verbatim>\<open>r\<close>, \<^verbatim>\<open>residual\<close> and \<^verbatim>\<open>iters\<close>; \<^verbatim>\<open>r_old\<close> is
  overwritten in line 61 before it is read, so it is local to the body. The loop ends
  only through one of its two \<^verbatim>\<open>break\<close>s: not returning is the value \<open>None\<close>.
\<close>

record pr_state =
  rvec :: vec
  residual :: real
  iters :: int

partial_function (option) pageRank_loop ::
  "sparse \<Rightarrow> int list \<Rightarrow> real \<Rightarrow> real \<Rightarrow> int \<Rightarrow> vec \<Rightarrow> pr_state
     \<Rightarrow> (py_error + pr_state \<times> string) option" where
  "pageRank_loop link_mat dangle_vec damp eps max_iters u st =
     (if residual st \<le> eps then Some (Inr (st, ''residual''))
      else if iters st = max_iters then Some (Inr (st, ''iters''))
      else case iteration link_mat dangle_vec damp u (rvec st) of
             Inl e \<Rightarrow> Some (Inl e)
           | Inr (r', res) \<Rightarrow>
               pageRank_loop link_mat dangle_vec damp eps max_iters u
                 \<lparr>rvec = r', residual = res, iters = iters st + 1\<rparr>)"

declare pageRank_loop.simps [code]

text \<open>
  \<^verbatim>\<open>pageRank\<close> returns \<^verbatim>\<open>(r, residual, iters, stop)\<close>. The four assertions of
  lines 41 to 44 and the one of line 70 raise AssertionError.
\<close>

definition pageRank ::
  "sparse \<Rightarrow> int list \<Rightarrow> real \<Rightarrow> real \<Rightarrow> int
     \<Rightarrow> (py_error + vec \<times> real \<times> int \<times> string) option" where
  "pageRank link_mat dangle_vec damp eps max_iters =
     (if \<not> (nrows link_mat = ncols link_mat \<and> ncols link_mat = length dangle_vec)
        then Some (Inl AssertionError)
      else if \<not> (0 \<le> damp \<and> damp \<le> 1) then Some (Inl AssertionError)
      else if \<not> 0 \<le> eps then Some (Inl AssertionError)
      else if \<not> 0 \<le> max_iters then Some (Inl AssertionError)
      else
        let n = length dangle_vec;
            u = replicate n (1 / real n)
        in case pageRank_loop link_mat dangle_vec damp eps max_iters u
                  \<lparr>rvec = u, residual = eps + 1, iters = 0\<rparr> of
             None \<Rightarrow> None
           | Some (Inl e) \<Rightarrow> Some (Inl e)
           | Some (Inr (st, stop)) \<Rightarrow>
               if \<bar>1 - norm1 (rvec st)\<bar> < 0.0001
               then Some (Inr (rvec st, residual st, iters st, stop))
               else Some (Inl AssertionError))"

text \<open>The defaults of the signature: \<^verbatim>\<open>damp = 0.85, eps = 0.0000001, max_iters = 50\<close>.\<close>

definition pageRank_default ::
  "sparse \<Rightarrow> int list \<Rightarrow> (py_error + vec \<times> real \<times> int \<times> string) option" where
  "pageRank_default link_mat dangle_vec = pageRank link_mat dangle_vec 0.85 0.0000001 50"


subsection \<open>The update as the specification words it\<close>

text \<open>
  Section 4.2 of the specification, steps 1 to 7, with a boolean flag per node:
  \<open>r_old := r\<close>; \<open>danglingMass := damp * \<Sum>\<^sub>i (danglingFlags[i] ? r_old[i] : 0)\<close>;
  \<open>r := danglingMass * u\<close>; \<open>r += (1 - damp) * u\<close>;
  \<open>r += damp * (sparseTransition \<cdot> r_old)\<close>; \<open>r := r / \<parallel>r\<parallel>\<^sub>1\<close>;
  \<open>residual := \<parallel>r_old - r\<parallel>\<^sub>1\<close>.
\<close>

definition spec_update :: "sparse \<Rightarrow> bool list \<Rightarrow> real \<Rightarrow> vec \<Rightarrow> vec \<Rightarrow> vec \<times> real" where
  "spec_update sparseTransition danglingFlags damp u r =
     (let r_old = r;
          danglingMass =
            damp * sum_list (map (\<lambda>i. if danglingFlags ! i then r_old ! i else 0)
                                 [0..<length danglingFlags]);
          r1 = scale danglingMass u;
          r2 = vadd r1 (scale (1 - damp) u);
          r3 = vadd r2 (scale damp (matvec sparseTransition r_old));
          r4 = map (\<lambda>x. x / norm1 r3) r3
      in (r4, norm1 (vsub r_old r4)))"

subsection \<open>\<^verbatim>\<open>readLinksFile\<close>\<close>

text \<open>
  The file is taken after its two header lines have been read as integers and the CSV
  reader has split the remaining lines into rows of fields. A field is \<open>Some v\<close> when
  its text is the integer \<open>v\<close>, and \<open>None\<close> when the conversion to an integer refuses
  it (ValueError). An empty line is the row \<open>[]\<close>.
\<close>

type_synonym field = "int option"

record loader_state =
  sources :: "int list"
  links :: "int list"
  normadj :: "real list"
  dangle :: "int list"
  links_seen :: nat

text \<open>
  Indexing a NumPy array of length \<open>n\<close> with a Python integer: a negative index counts
  from the end, anything outside \<open>[-n, n)\<close> raises IndexError.
\<close>

definition np_index :: "nat \<Rightarrow> int \<Rightarrow> py_error + nat" where
  "np_index n i =
     (if 0 \<le> i \<and> i < int n then Inr (nat i)
      else if - int n \<le> i \<and> i < 0 then Inr (nat (int n + i))
      else Inl IndexError)"

definition setitem :: "'a list \<Rightarrow> int \<Rightarrow> 'a \<Rightarrow> py_error + 'a list" where
  "setitem xs i v = (case np_index (length xs) i of Inl e \<Rightarrow> Inl e | Inr k \<Rightarrow> Inr (xs[k := v]))"

text \<open>
  \<^verbatim>\<open>sources\<close> and \<^verbatim>\<open>links\<close> are int32 arrays. Storing a field converts it:
  text that is not an integer raises ValueError, and an integer that does not fit the
  32-bit element is refused with OverflowError (a NumPy that wraps such a value around
  instead is not covered).
\<close>

definition fits_int32 :: "int \<Rightarrow> bool" where
  "fits_int32 v = (- (2 ^ 31) \<le> v \<and> v < 2 ^ 31)"

definition to_int32 :: "field \<Rightarrow> py_error + int" where
  "to_int32 f =
     (case f of
        None \<Rightarrow> Inl ValueError
      | Some v \<Rightarrow> if fits_int32 v then Inr v else Inl OverflowError)"

definition setitem32 :: "int list \<Rightarrow> int \<Rightarrow> field \<Rightarrow> py_error + int list" where
  "setitem32 xs i f =
     (case np_index (length xs) i of
        Inl e \<Rightarrow> Inl e
      | Inr k \<Rightarrow> (case to_int32 f of Inl e \<Rightarrow> Inl e | Inr v \<Rightarrow> Inr (xs[k := v])))"

text \<open>
  The inner loop of lines 88 to 91, \<^verbatim>\<open>for i in range(0, outdeg)\<close>, over the
  destinations \<^verbatim>\<open>line[i + 1]\<close>. The counters \<^verbatim>\<open>links_seen\<close>, \<^verbatim>\<open>outdeg\<close> and
  \<^verbatim>\<open>i\<close> never go below zero and are natural numbers here.
\<close>

fun write_links :: "loader_state \<Rightarrow> int \<Rightarrow> nat \<Rightarrow> nat \<Rightarrow> field list \<Rightarrow> py_error + loader_state" where
  "write_links st source outdeg i [] = Inr st"
| "write_links st source outdeg i (d # ds) =
     (case setitem32 (sources st) (int (links_seen st + i)) (Some source) of
        Inl e \<Rightarrow> Inl e
      | Inr sources' \<Rightarrow>
     (case setitem32 (links st) (int (links_seen st + i)) d of
        Inl e \<Rightarrow> Inl e
      | Inr links' \<Rightarrow>
     (case setitem (normadj st) (int (links_seen st + i)) (1 / real outdeg) of
        Inl e \<Rightarrow> Inl e
      | Inr normadj' \<Rightarrow>
          write_links (st\<lparr>sources := sources', links := links', normadj := normadj'\<rparr>)
            source outdeg (i + 1) ds)))"

text \<open>The body of the loop over the rows, lines 84 to 92.\<close>

definition read_line :: "loader_state \<Rightarrow> field list \<Rightarrow> py_error + loader_state" where
  "read_line st line =
     (case line of
        [] \<Rightarrow> Inl IndexError
      | None # dests \<Rightarrow> Inl ValueError
      | Some source # dests \<Rightarrow>
          let outdeg = length line - 1
          in if outdeg > 0 then
               (case setitem (dangle st) source 0 of
                  Inl e \<Rightarrow> Inl e
                | Inr dangle' \<Rightarrow>
                    (case write_links (st\<lparr>dangle := dangle'\<rparr>) source outdeg 0 dests of
                       Inl e \<Rightarrow> Inl e
                     | Inr st' \<Rightarrow> Inr (st'\<lparr>links_seen := links_seen st' + outdeg\<rparr>)))
             else Inr st)"

fun read_lines :: "loader_state \<Rightarrow> field list list \<Rightarrow> py_error + loader_state" where
  "read_lines st [] = Inr st"
| "read_lines st (line # rest) =
     (case read_line st line of Inl e \<Rightarrow> Inl e | Inr st' \<Rightarrow> read_lines st' rest)"

text \<open>
  \<^verbatim>\<open>spm.coo_matrix((data, (row, col)), shape = (M, N))\<close>: SciPy checks every index
  against the shape and raises ValueError for a negative one or one that exceeds the
  dimension.
\<close>

definition coo_matrix :: "real list \<Rightarrow> int list \<Rightarrow> int list \<Rightarrow> int \<Rightarrow> int \<Rightarrow> py_error + sparse" where
  "coo_matrix data row col M N =
     (if M < 0 \<or> N < 0 then Inl ValueError
      else if list_ex (\<lambda>i. i < 0 \<or> M \<le> i) row \<or> list_ex (\<lambda>j. j < 0 \<or> N \<le> j) col
        then Inl ValueError
      else Inr \<lparr>nrows = nat M, ncols = nat N,
                entries = map (\<lambda>(i, j, w). (nat i, nat j, w)) (zip row (zip col data))\<rparr>)"

text \<open>
  \<^verbatim>\<open>readLinksFile\<close> returns \<^verbatim>\<open>(num_pages, link_mat, dangle)\<close>. \<^verbatim>\<open>np.zeros\<close> and
  \<^verbatim>\<open>np.ones\<close> raise ValueError for a negative length. The matrix is built with the
  destinations as rows and the sources as columns.
\<close>

definition readLinksFile :: "int \<Rightarrow> int \<Rightarrow> field list list \<Rightarrow> py_error + int \<times> sparse \<times> int list" where
  "readLinksFile num_pages num_links lines =
     (if num_pages < 0 \<or> num_links < 0 then Inl ValueError
      else
        (case read_lines
                \<lparr>sources = replicate (nat num_links) 0, links = replicate (nat num_links) 0,
                 normadj = replicate (nat num_links) 0, dangle = replicate (nat num_pages) 1,
                 links_seen = 0\<rparr> lines of
           Inl e \<Rightarrow> Inl e
         | Inr st \<Rightarrow>
             if int (links_seen st) \<noteq> num_links then Inl AssertionError
             else (case coo_matrix (normadj st) (links st) (sources st) num_pages num_pages of
                     Inl e \<Rightarrow> Inl e
                   | Inr link_mat \<Rightarrow> Inr (num_pages, link_mat, dangle st))))"

subsection \<open>Notions used in the statements\<close>

text \<open>The number of destination fields of all rows together.\<close>

definition dest_count :: "field list list \<Rightarrow> nat" where
  "dest_count lines = sum_list (map (\<lambda>line. length line - 1) lines)"

text \<open>The sum of the weights of the stored triples whose source is \<open>s\<close>.\<close>

definition col_sum :: "sparse \<Rightarrow> nat \<Rightarrow> real" where
  "col_sum m s = sum_list (map (\<lambda>(row, col, w). if col = s then w else 0) (entries m))"

text \<open>The rows that give \<open>s\<close> at least one destination.\<close>

definition rows_of :: "int \<Rightarrow> field list list \<Rightarrow> field list list" where
  "rows_of s lines = filter (\<lambda>line. 1 < length line \<and> hd line = Some s) lines"


text \<open>A probability distribution over the nodes: non-negative entries that sum to 1.\<close>

definition prob_dist :: "vec \<Rightarrow> bool" where
  "prob_dist v = (list_all (\<lambda>x. 0 \<le> x) v \<and> sum_list v = 1)"

text \<open>
  What the solver expects of the loader's result: the shape is \<open>n \<times> n\<close> for the \<open>n\<close>
  flags, every entry lies inside the shape and has a non-negative weight (a weight is
  \<open>1 / outdeg\<close>), and every node is either non-dangling (flag 0) with a column that sums
  to 1, or dangling (flag 1) with a column that is zero.
\<close>

definition loader_contract :: "sparse \<Rightarrow> int list \<Rightarrow> bool" where
  "loader_contract m dangle_vec =
     (nrows m = length dangle_vec \<and> ncols m = length dangle_vec \<and>
      list_all (\<lambda>(row, col, w). row < nrows m \<and> col < ncols m \<and> 0 \<le> w) (entries m) \<and>
      list_all (\<lambda>s. if dangle_vec ! s = 0 then col_sum m s = 1
                     else dangle_vec ! s = 1 \<and>
                          list_all (\<lambda>(row, col, w). col = s \<longrightarrow> w = 0) (entries m))
        [0..<length dangle_vec])"

text \<open>
  The triples (source, destination, weight) that a row contributes to the three arrays,
  and the triples that the arrays hold so far.
\<close>

definition field_val :: "field \<Rightarrow> int" where
  "field_val f = (case f of None \<Rightarrow> 0 | Some v \<Rightarrow> v)"

definition row_triples :: "field list \<Rightarrow> (int \<times> int \<times> real) list" where
  "row_triples line =
     (case line of
        [] \<Rightarrow> []
      | f # dests \<Rightarrow> map (\<lambda>d. (field_val f, field_val d, 1 / real (length dests))) dests)"

definition triples :: "loader_state \<Rightarrow> (int \<times> int \<times> real) list" where
  "triples st = zip (sources st) (zip (links st) (normadj st))"

definition arrays_ok :: "nat \<Rightarrow> loader_state \<Rightarrow> bool" where
  "arrays_ok L st =
     (length (sources st) = L \<and> length (links st) = L \<and> length (normadj st) = L \<and>
      links_seen st \<le> L)"


text \<open>
  A row as the docstring describes it: a source and its destinations, all of them
  integers; the ids that reach the arrays lie in \<open>[0, n)\<close> and fit 32 bits.
\<close>

definition good_row :: "int \<Rightarrow> field list \<Rightarrow> bool" where
  "good_row n line =
     (case line of
        [] \<Rightarrow> False
      | None # dests \<Rightarrow> False
      | Some s # dests \<Rightarrow>
          (dests = [] \<or> (0 \<le> s \<and> s < n \<and> fits_int32 s)) \<and>
          list_all (\<lambda>d. case d of None \<Rightarrow> False | Some v \<Rightarrow> 0 \<le> v \<and> v < n \<and> fits_int32 v) dests)"

text \<open>The example input file of the module's docstring: 3 pages, 4 links.\<close>

definition example_rows :: "field list list" where
  "example_rows = [[Some 0, Some 1, Some 2], [Some 1, Some 2], [Some 2, Some 0]]"

section \<open>Properties of the solver\<close>








lemma pageRank_loop_residual:
  "residual st \<le> eps \<Longrightarrow>
   pageRank_loop link_mat dangle_vec damp eps max_iters u st = Some (Inr (st, ''residual''))"
  by (subst pageRank_loop.simps) simp


lemma pageRank_loop_step:
  "\<not> residual st \<le> eps \<Longrightarrow> iters st \<noteq> max_iters \<Longrightarrow>
   iteration link_mat dangle_vec damp u (rvec st) = Inr (r', res) \<Longrightarrow>
   pageRank_loop link_mat dangle_vec damp eps max_iters u st =
   pageRank_loop link_mat dangle_vec damp eps max_iters u
     \<lparr>rvec = r', residual = res, iters = iters st + 1\<rparr>"
  by (subst pageRank_loop.simps) simp

subsection \<open>No iteration allowed\<close>




subsection \<open>The order of the two stopping checks\<close>

lemma pageRank_loop_stop:
  assumes "pageRank_loop link_mat dangle_vec damp eps max_iters u st = Some (Inr (st', stop))"
  shows "(stop = ''residual'' \<and> residual st' \<le> eps) \<or>
         (stop = ''iters'' \<and> \<not> residual st' \<le> eps \<and> iters st' = max_iters)"
proof -
  have "\<forall>st' stop. y = Inr (st', stop) \<longrightarrow>
           (stop = ''residual'' \<and> residual st' \<le> eps) \<or>
           (stop = ''iters'' \<and> \<not> residual st' \<le> eps \<and> iters st' = max_iters)"
    if "pageRank_loop link_mat dangle_vec damp eps max_iters u st = Some y" for y
  proof (rule pageRank_loop.raw_induct
      [where P = "\<lambda>link_mat dangle_vec damp eps max_iters u st y.
           \<forall>st' stop. y = Inr (st', stop) \<longrightarrow>
           (stop = ''residual'' \<and> residual st' \<le> eps) \<or>
           (stop = ''iters'' \<and> \<not> residual st' \<le> eps \<and> iters st' = max_iters)",
       OF _ that], goal_cases)
    case (1 loop link_mat dangle_vec damp eps max_iters u st y)
    then show ?case
      by (auto split: if_splits sum.splits prod.splits)
  qed
  from this [OF assms] show ?thesis by blast
qed

lemma pageRank_loop_returns:
  assumes "iters st \<le> max_iters"
  shows "\<exists>y. pageRank_loop link_mat dangle_vec damp eps max_iters u st = Some y"
  using assms
proof (induction "nat (max_iters - iters st)" arbitrary: st)
  case 0
  then have "iters st = max_iters" by simp
  then show ?case by (subst pageRank_loop.simps) simp
next
  case (Suc k)
  show ?case
  proof (cases "iteration link_mat dangle_vec damp u (rvec st)")
    case (Inl e)
    then show ?thesis by (subst pageRank_loop.simps) simp
  next
    case (Inr p)
    obtain r' res where p: "p = (r', res)" by (cases p)
    let ?st = "\<lparr>rvec = r', residual = res, iters = iters st + 1\<rparr>"
    from Suc.hyps(2) Suc.prems have "k = nat (max_iters - iters ?st)" "iters ?st \<le> max_iters"
      by simp_all
    from Suc.hyps(1) [OF this] obtain y where
      "pageRank_loop link_mat dangle_vec damp eps max_iters u ?st = Some y" by blast
    with Inr p show ?thesis by (subst pageRank_loop.simps) simp
  qed
qed

lemma pageRank_returns: "\<exists>y. pageRank link_mat dangle_vec damp eps max_iters = Some y"
proof (cases "0 \<le> max_iters")
  case True
  let ?u = "replicate (length dangle_vec) (1 / real (length dangle_vec))"
  from pageRank_loop_returns [of "\<lparr>rvec = ?u, residual = eps + 1, iters = 0\<rparr>" max_iters
      link_mat dangle_vec damp eps ?u] True
  obtain y where "pageRank_loop link_mat dangle_vec damp eps max_iters ?u
      \<lparr>rvec = ?u, residual = eps + 1, iters = 0\<rparr> = Some y" by auto
  then show ?thesis
    by (auto simp: pageRank_def Let_def split: sum.splits prod.splits)
next
  case False
  then show ?thesis by (simp add: pageRank_def)
qed

text \<open>
  C9: the residual check comes first. When, at the top of the loop, both
  \<open>residual \<le> eps\<close> and \<open>iters = max_iters\<close> hold, the loop stops with the reason
  \<open>residual\<close> and leaves the state as it is; and whenever \<open>pageRank\<close> returns a
  residual that is at most \<open>eps\<close> together with \<open>iters = max_iters\<close>, the stop reason
  it returns is \<open>residual\<close>.
\<close>

theorem residual_check_first:
  "(residual st \<le> eps \<and> iters st = max_iters \<longrightarrow>
      pageRank_loop link_mat dangle_vec damp eps max_iters u st = Some (Inr (st, ''residual''))) \<and>
   (pageRank link_mat dangle_vec damp eps max_iters = Some (Inr (r, res, it, stop)) \<and>
      res \<le> eps \<and> it = max_iters \<longrightarrow> stop = ''residual'')"
proof (intro conjI impI)
  assume "residual st \<le> eps \<and> iters st = max_iters"
  then show "pageRank_loop link_mat dangle_vec damp eps max_iters u st = Some (Inr (st, ''residual''))"
    by (simp add: pageRank_loop_residual)
next
  assume a: "pageRank link_mat dangle_vec damp eps max_iters = Some (Inr (r, res, it, stop)) \<and>
      res \<le> eps \<and> it = max_iters"
  let ?u = "replicate (length dangle_vec) (1 / real (length dangle_vec))"
  from a obtain st' where
    "pageRank_loop link_mat dangle_vec damp eps max_iters ?u
       \<lparr>rvec = ?u, residual = eps + 1, iters = 0\<rparr> = Some (Inr (st', stop))"
    and "res = residual st'"
    by (auto simp: pageRank_def Let_def split: if_splits option.splits sum.splits prod.splits)
  with pageRank_loop_stop [OF this(1)] a show "stop = ''residual''" by auto
qed

theorem residual_check_first_witness:
  "pageRank_loop \<lparr>nrows = 2, ncols = 2, entries = []\<rparr> [1, 1] 0.85 0.0000001 1 [1 / 2, 1 / 2]
     \<lparr>rvec = [1 / 2, 1 / 2], residual = 0, iters = 1\<rparr> =
   Some (Inr (\<lparr>rvec = [1 / 2, 1 / 2], residual = 0, iters = 1\<rparr>, ''residual''))"
  using residual_check_first
    [of "\<lparr>rvec = [1 / 2, 1 / 2], residual = 0, iters = 1\<rparr>" "0.0000001" 1
        "\<lparr>nrows = 2, ncols = 2, entries = []\<rparr>" "[1, 1]" "0.85" "[1 / 2, 1 / 2]"]
  by simp

subsection \<open>A graph without edges\<close>





subsection \<open>The update of one iteration\<close>

lemma map2_nth: "length xs = length ys \<Longrightarrow> map2 g xs ys = map (\<lambda>i. g (xs ! i) (ys ! i)) [0..<length xs]"
  by (rule nth_equalityI) simp_all

lemma dot_flags:
  assumes "\<forall>d\<in>set dangle_vec. d = 0 \<or> d = 1" "length r = length dangle_vec"
  shows "dot dangle_vec r =
         sum_list (map (\<lambda>i. if map (\<lambda>d. d \<noteq> 0) dangle_vec ! i then r ! i else 0) [0..<length (map (\<lambda>d. d \<noteq> 0) dangle_vec)])"
proof -
  have "dot dangle_vec r = sum_list (map (\<lambda>i. of_int (dangle_vec ! i) * r ! i) [0..<length dangle_vec])"
    using assms by (simp add: dot_def map2_nth)
  also have "map (\<lambda>i. of_int (dangle_vec ! i) * r ! i) [0..<length dangle_vec]
             = map (\<lambda>i. if map (\<lambda>d. d \<noteq> 0) dangle_vec ! i then r ! i else 0) [0..<length dangle_vec]"
  proof (rule map_cong [OF refl])
    fix i assume "i \<in> set [0..<length dangle_vec]"
    then have i: "i < length dangle_vec" by simp
    then have "dangle_vec ! i = 0 \<or> dangle_vec ! i = 1" using assms(1) nth_mem by blast
    then show "of_int (dangle_vec ! i) * r ! i = (if map (\<lambda>d. d \<noteq> 0) dangle_vec ! i then r ! i else 0)"
      using i by auto
  qed
  finally show ?thesis by simp
qed

lemma iteration_spec_update:
  assumes "\<forall>d\<in>set dangle_vec. d = 0 \<or> d = 1" "length r = length dangle_vec"
  shows "iteration link_mat dangle_vec damp u r =
         (if unnormalized link_mat dangle_vec damp u r \<noteq> [] \<and>
             norm1 (unnormalized link_mat dangle_vec damp u r) = 0
          then Inl ValueError
          else Inr (spec_update link_mat (map (\<lambda>d. d \<noteq> 0) dangle_vec) damp u r))"
  unfolding iteration_def spec_update_def unnormalized_def Let_def
  using dot_flags [OF assms] by simp

text \<open>
  C1: every iteration that \<open>pageRank\<close> performs computes the new rank vector by the
  specified sequence (\<open>r_old\<close> a copy of \<open>r\<close>; the dangling mass \<open>damp\<close> times the sum of
  \<open>r_old\<close> over the flagged nodes; \<open>r = danglingMass * u\<close>; \<open>r += (1 - damp) * u\<close>;
  \<open>r += damp * (link_mat \<cdot> r_old)\<close>; \<open>r\<close> divided by its L1 norm), and the residual
  for the next stopping check is the L1 norm of \<open>r_old - r\<close>. The flags are the entries
  0 and 1 of \<open>dangle_vec\<close>, and the norm that divides is not zero.
\<close>

theorem iteration_as_specified:
  assumes "\<forall>d\<in>set dangle_vec. d = 0 \<or> d = 1" and "length (rvec st) = length dangle_vec"
    and "unnormalized link_mat dangle_vec damp u (rvec st) = [] \<or>
         norm1 (unnormalized link_mat dangle_vec damp u (rvec st)) \<noteq> 0"
    and "\<not> residual st \<le> eps" and "iters st \<noteq> max_iters"
  shows "iteration link_mat dangle_vec damp u (rvec st) =
           Inr (spec_update link_mat (map (\<lambda>d. d \<noteq> 0) dangle_vec) damp u (rvec st)) \<and>
         pageRank_loop link_mat dangle_vec damp eps max_iters u st =
           pageRank_loop link_mat dangle_vec damp eps max_iters u
             \<lparr>rvec = fst (spec_update link_mat (map (\<lambda>d. d \<noteq> 0) dangle_vec) damp u (rvec st)),
              residual = snd (spec_update link_mat (map (\<lambda>d. d \<noteq> 0) dangle_vec) damp u (rvec st)),
              iters = iters st + 1\<rparr>"
proof -
  have it: "iteration link_mat dangle_vec damp u (rvec st) =
           Inr (spec_update link_mat (map (\<lambda>d. d \<noteq> 0) dangle_vec) damp u (rvec st))"
    using iteration_spec_update [OF assms(1,2)] assms(3) by auto
  then have "iteration link_mat dangle_vec damp u (rvec st) =
     Inr (fst (spec_update link_mat (map (\<lambda>d. d \<noteq> 0) dangle_vec) damp u (rvec st)),
          snd (spec_update link_mat (map (\<lambda>d. d \<noteq> 0) dangle_vec) damp u (rvec st)))"
    by simp
  from pageRank_loop_step [OF assms(4,5) this] it show ?thesis by simp
qed

theorem iteration_as_specified_witness:
  "iteration \<lparr>nrows = 2, ncols = 2, entries = [(1, 0, 1)]\<rparr> [0, 1] (1 / 2) [1 / 2, 1 / 2]
       [1 / 2, 1 / 2] =
     Inr (spec_update \<lparr>nrows = 2, ncols = 2, entries = [(1, 0, 1)]\<rparr> [False, True]
            (1 / 2) [1 / 2, 1 / 2] [1 / 2, 1 / 2]) \<and>
   pageRank_loop \<lparr>nrows = 2, ncols = 2, entries = [(1, 0, 1)]\<rparr> [0, 1] (1 / 2) 1 5 [1 / 2, 1 / 2]
       \<lparr>rvec = [1 / 2, 1 / 2], residual = 2, iters = 0\<rparr> =
     pageRank_loop \<lparr>nrows = 2, ncols = 2, entries = [(1, 0, 1)]\<rparr> [0, 1] (1 / 2) 1 5 [1 / 2, 1 / 2]
       \<lparr>rvec = fst (spec_update \<lparr>nrows = 2, ncols = 2, entries = [(1, 0, 1)]\<rparr>
                      [False, True] (1 / 2) [1 / 2, 1 / 2] [1 / 2, 1 / 2]),
        residual = snd (spec_update \<lparr>nrows = 2, ncols = 2, entries = [(1, 0, 1)]\<rparr>
                      [False, True] (1 / 2) [1 / 2, 1 / 2] [1 / 2, 1 / 2]),
        iters = 1\<rparr>"
  using iteration_as_specified
    [where dangle_vec = "[0, 1]" and st = "\<lparr>rvec = [1 / 2, 1 / 2], residual = 2, iters = 0\<rparr>"
       and link_mat = "\<lparr>nrows = 2, ncols = 2, entries = [(1, 0, 1)]\<rparr>" and damp = "1 / 2"
       and u = "[1 / 2, 1 / 2]" and eps = 1 and max_iters = 5]
  by (simp add: unnormalized_def matvec_def dot_def scale_def vadd_def norm1_def upt_rec
        numeral_2_eq_2)


subsection \<open>The norm that divides\<close>

lemma sum_list_vadd: "length a = length b \<Longrightarrow> sum_list (vadd a b) = sum_list a + sum_list b"
  unfolding vadd_def by (induction a b rule: list_induct2) simp_all

lemma sum_list_scale: "sum_list (scale c v) = c * sum_list v"
  by (simp add: scale_def sum_list_const_mult)

lemma length_vadd: "length (vadd a b) = min (length a) (length b)"
  by (simp add: vadd_def)

lemma length_scale: "length (scale c v) = length v"
  by (simp add: scale_def)

lemma length_matvec: "length (matvec m v) = nrows m"
  by (simp add: matvec_def)

lemma nonneg_vadd:
  "list_all (\<lambda>x. 0 \<le> x) a \<Longrightarrow> list_all (\<lambda>x. 0 \<le> x) b \<Longrightarrow> list_all (\<lambda>x. 0 \<le> x) (vadd a b)"
proof -
  assume a: "list_all (\<lambda>x. 0 \<le> x) a" and b: "list_all (\<lambda>x. 0 \<le> x) b"
  have "0 \<le> z" if "z \<in> set (vadd a b)" for z
  proof -
    from that obtain x y where xy: "(x, y) \<in> set (zip a b)" and z: "z = x + y"
      unfolding vadd_def by auto
    from xy have "x \<in> set a" "y \<in> set b"
      by (auto dest: set_zip_leftD set_zip_rightD)
    with a b have "0 \<le> x" "0 \<le> y" by (auto simp: list_all_iff)
    with z show ?thesis by simp
  qed
  then show ?thesis by (simp add: list_all_iff)
qed

lemma nonneg_scale:
  "0 \<le> c \<Longrightarrow> list_all (\<lambda>x. 0 \<le> x) v \<Longrightarrow> list_all (\<lambda>x. 0 \<le> x) (scale c v)"
  unfolding scale_def list_all_iff by auto

lemma sum_list_delta:
  "sum_list (map (\<lambda>i. if k = i then c else 0) [0..<n]) = (if k < n then c else (0::real))"
  by (induction n) auto

lemma sum_list_matvec:
  assumes "list_all (\<lambda>(row, col, w). row < nrows m) (entries m)"
  shows "sum_list (matvec m v) = sum_list (map (\<lambda>(row, col, w). w * v ! col) (entries m))"
proof -
  have "list_all (\<lambda>(row, col, w). row < n) es \<Longrightarrow>
        sum_list (map (\<lambda>i. sum_list (map (\<lambda>(row, col, w). if row = i then w * v ! col else 0) es)) [0..<n])
        = sum_list (map (\<lambda>(row, col, w). w * v ! col) es)" for es n
  proof (induction es)
    case Nil
    then show ?case by simp
  next
    case (Cons e es)
    obtain row col w where e: "e = (row, col, w)" by (cases e)
    from Cons show ?case
      by (simp add: e sum_list_addf sum_list_delta)
  qed
  from this [OF assms] show ?thesis by (simp add: matvec_def)
qed

lemma sum_list_by_column:
  fixes es :: "(nat \<times> nat \<times> real) list"
  assumes "list_all (\<lambda>(row, col, w). col < n) es"
  shows "sum_list (map (\<lambda>(row, col, w). w * v ! col) es)
         = sum_list (map (\<lambda>s. v ! s * sum_list (map (\<lambda>(row, col, w). if col = s then w else 0) es)) [0..<n])"
  using assms
proof (induction es)
  case Nil
  then show ?case by simp
next
  case (Cons e es)
  obtain row col w where e: "e = (row, col, w)" by (cases e)
  have "sum_list (map (\<lambda>s. v ! s * (if col = s then w else 0)) [0..<n]) = w * v ! col"
  proof -
    have "map (\<lambda>s. v ! s * (if col = s then w else 0)) [0..<n]
          = map (\<lambda>s. if col = s then w * v ! col else 0) [0..<n]"
      by (rule map_cong) auto
    then have "sum_list (map (\<lambda>s. v ! s * (if col = s then w else 0)) [0..<n])
          = sum_list (map (\<lambda>s. if col = s then w * v ! col else 0) [0..<n])"
      by (simp only:)
    also have "\<dots> = w * v ! col"
      using Cons.prems by (simp add: e sum_list_delta)
    finally show ?thesis .
  qed
  with Cons show ?case
    by (simp add: e distrib_left sum_list_addf)
qed


lemma sum_list_zero_column:
  fixes es :: "(nat \<times> nat \<times> real) list"
  shows "list_all (\<lambda>(row, col, w). col = s \<longrightarrow> w = 0) es \<Longrightarrow>
         sum_list (map (\<lambda>(row, col, w). if col = s then w else 0) es) = 0"
  by (induction es) auto

lemma col_sum_zero_column:
  "list_all (\<lambda>(row, col, w). col = s \<longrightarrow> w = 0) (entries m) \<Longrightarrow> col_sum m s = 0"
  unfolding col_sum_def by (rule sum_list_zero_column)

lemma norm1_nonneg_eq: "list_all (\<lambda>x. 0 \<le> x) v \<Longrightarrow> norm1 v = sum_list v"
proof -
  assume "list_all (\<lambda>x. 0 \<le> x) v"
  then have "map abs v = v" by (intro map_idI) (simp add: list_all_iff)
  then show ?thesis by (simp add: norm1_def)
qed

lemma nonneg_dot:
  assumes "\<forall>d\<in>set dangle_vec. d = 0 \<or> d = 1" "list_all (\<lambda>x. 0 \<le> x) v"
  shows "0 \<le> dot dangle_vec v"
  unfolding dot_def
proof (rule sum_list_nonneg)
  fix x assume "x \<in> set (map2 (\<lambda>a b. real_of_int a * b) dangle_vec v)"
  then obtain a b where ab: "(a, b) \<in> set (zip dangle_vec v)" and x: "x = real_of_int a * b"
    by auto
  from ab have "a \<in> set dangle_vec" "b \<in> set v"
    by (auto dest: set_zip_leftD set_zip_rightD)
  with assms have "0 \<le> a" "0 \<le> b" by (auto simp: list_all_iff)
  with x show "0 \<le> x" by simp
qed

lemma nonneg_matvec:
  assumes "list_all (\<lambda>(row, col, w). col < length v \<and> 0 \<le> w) (entries m)"
    and "list_all (\<lambda>x. 0 \<le> x) v"
  shows "list_all (\<lambda>x. 0 \<le> x) (matvec m v)"
proof -
  have "0 \<le> sum_list (map (\<lambda>(row, col, w). if row = i then w * v ! col else 0) (entries m))" for i
  proof (rule sum_list_nonneg)
    fix x assume "x \<in> set (map (\<lambda>(row, col, w). if row = i then w * v ! col else 0) (entries m))"
    then obtain row col w where e: "(row, col, w) \<in> set (entries m)"
      and x: "x = (if row = i then w * v ! col else 0)" by auto
    from e assms(1) have "col < length v" "0 \<le> w" by (auto simp: list_all_iff)
    moreover from this assms(2) have "0 \<le> v ! col" by (simp add: list_all_length)
    ultimately show "0 \<le> x" using x by simp
  qed
  then show ?thesis by (simp add: matvec_def list_all_iff)
qed

lemma contract_flags: "loader_contract m dangle_vec \<Longrightarrow> \<forall>d\<in>set dangle_vec. d = 0 \<or> d = 1"
proof
  fix d assume c: "loader_contract m dangle_vec" and "d \<in> set dangle_vec"
  then obtain s where s: "s < length dangle_vec" "dangle_vec ! s = d"
    by (auto simp: in_set_conv_nth)
  with c show "d = 0 \<or> d = 1"
    by (auto simp: loader_contract_def list_all_iff split: if_splits)
qed

lemma contract_column:
  assumes "loader_contract m dangle_vec" "s < length dangle_vec"
  shows "real_of_int (dangle_vec ! s) + col_sum m s = 1"
proof -
  from assms(1) have "list_all (\<lambda>s. if dangle_vec ! s = 0 then col_sum m s = 1
      else dangle_vec ! s = 1 \<and> list_all (\<lambda>(row, col, w). col = s \<longrightarrow> w = 0) (entries m))
      [0..<length dangle_vec]"
    by (simp add: loader_contract_def)
  moreover have "s \<in> set [0..<length dangle_vec]" using assms(2) by simp
  ultimately have *: "if dangle_vec ! s = 0 then col_sum m s = 1
      else dangle_vec ! s = 1 \<and> list_all (\<lambda>(row, col, w). col = s \<longrightarrow> w = 0) (entries m)"
    by (rule list_all_iff [THEN iffD1, THEN bspec])
  show ?thesis
  proof (cases "dangle_vec ! s = 0")
    case True
    with * show ?thesis by simp
  next
    case False
    with * have "dangle_vec ! s = 1"
      and "list_all (\<lambda>(row, col, w). col = s \<longrightarrow> w = 0) (entries m)"
      by simp_all
    then show ?thesis by (simp add: col_sum_zero_column)
  qed
qed

lemma unnormalized_mass:
  assumes n: "1 \<le> length dangle_vec" and c: "loader_contract link_mat dangle_vec"
    and r: "prob_dist r_old" "length r_old = length dangle_vec"
  shows "sum_list (unnormalized link_mat dangle_vec damp
                     (replicate (length dangle_vec) (1 / real (length dangle_vec))) r_old) = 1"
proof -
  let ?n = "length dangle_vec"
  let ?u = "replicate ?n (1 / real ?n)"
  have "0 < ?n" using n by (cases dangle_vec) simp_all
  then have su: "sum_list ?u = 1" by (simp add: sum_list_replicate)
  have rows: "list_all (\<lambda>(row, col, w). row < nrows link_mat) (entries link_mat)"
    and cols: "list_all (\<lambda>(row, col, w). col < ?n) (entries link_mat)"
    using c by (auto simp: loader_contract_def list_all_iff)
  have d: "dot dangle_vec r_old = sum_list (map (\<lambda>s. real_of_int (dangle_vec ! s) * r_old ! s) [0..<?n])"
    using r(2) by (simp add: dot_def map2_nth)
  have mv: "sum_list (matvec link_mat r_old) = sum_list (map (\<lambda>s. r_old ! s * col_sum link_mat s) [0..<?n])"
    using sum_list_matvec [OF rows] sum_list_by_column [OF cols] by (simp add: col_sum_def)
  have "dot dangle_vec r_old + sum_list (matvec link_mat r_old)
        = sum_list (map (\<lambda>s. real_of_int (dangle_vec ! s) * r_old ! s + r_old ! s * col_sum link_mat s) [0..<?n])"
    by (simp add: d mv sum_list_addf)
  also have "map (\<lambda>s. real_of_int (dangle_vec ! s) * r_old ! s + r_old ! s * col_sum link_mat s) [0..<?n]
             = map (\<lambda>s. r_old ! s) [0..<?n]"
  proof (rule map_cong [OF refl])
    fix s assume "s \<in> set [0..<?n]"
    then have "s < ?n" by simp
    from contract_column [OF c this]
    have "(real_of_int (dangle_vec ! s) + col_sum link_mat s) * r_old ! s = r_old ! s" by simp
    then show "real_of_int (dangle_vec ! s) * r_old ! s + r_old ! s * col_sum link_mat s = r_old ! s"
      by (simp add: algebra_simps)
  qed
  also have "sum_list (map (\<lambda>s. r_old ! s) [0..<?n]) = 1"
    using r map_nth [of r_old] by (simp add: prob_dist_def)
  finally have tot: "dot dangle_vec r_old + sum_list (matvec link_mat r_old) = 1" .
  have "sum_list (unnormalized link_mat dangle_vec damp ?u r_old)
        = damp * dot dangle_vec r_old + (1 - damp) + damp * sum_list (matvec link_mat r_old)"
    using c by (simp add: unnormalized_def sum_list_vadd length_vadd length_scale length_matvec
        sum_list_scale su loader_contract_def)
  also have "\<dots> = damp * (dot dangle_vec r_old + sum_list (matvec link_mat r_old)) + (1 - damp)"
    by (simp add: algebra_simps)
  finally show ?thesis by (simp add: tot)
qed

lemma unnormalized_nonneg:
  assumes d: "0 \<le> damp" "damp \<le> 1" and c: "loader_contract link_mat dangle_vec"
    and r: "prob_dist r_old" "length r_old = length dangle_vec"
  shows "list_all (\<lambda>x. 0 \<le> x) (unnormalized link_mat dangle_vec damp
                     (replicate (length dangle_vec) (1 / real (length dangle_vec))) r_old)"
proof -
  let ?n = "length dangle_vec"
  let ?u = "replicate ?n (1 / real ?n)"
  have u: "list_all (\<lambda>x. 0 \<le> x) ?u" by (simp add: list_all_iff)
  have r0: "list_all (\<lambda>x. 0 \<le> x) r_old" using r by (simp add: prob_dist_def)
  have "0 \<le> dot dangle_vec r_old" using contract_flags [OF c] r0 by (rule nonneg_dot)
  then have 1: "list_all (\<lambda>x. 0 \<le> x) (scale (damp * dot dangle_vec r_old) ?u)"
    using d u by (intro nonneg_scale) simp_all
  have 2: "list_all (\<lambda>x. 0 \<le> x) (scale (1 - damp) ?u)"
    using d u by (intro nonneg_scale) simp_all
  have "list_all (\<lambda>(row, col, w). col < length r_old \<and> 0 \<le> w) (entries link_mat)"
    using c r(2) by (auto simp: loader_contract_def list_all_iff)
  then have "list_all (\<lambda>x. 0 \<le> x) (matvec link_mat r_old)" using r0 by (rule nonneg_matvec)
  then have 3: "list_all (\<lambda>x. 0 \<le> x) (scale damp (matvec link_mat r_old))"
    using d by (intro nonneg_scale) simp_all
  show ?thesis unfolding unnormalized_def by (intro nonneg_vadd 1 2 3)
qed

lemma iteration_contract:
  assumes "1 \<le> length dangle_vec" and "0 \<le> damp" "damp \<le> 1"
    and "loader_contract link_mat dangle_vec"
    and "prob_dist r_old" "length r_old = length dangle_vec"
  shows "list_all (\<lambda>x. 0 \<le> x)
           (unnormalized link_mat dangle_vec damp
              (replicate (length dangle_vec) (1 / real (length dangle_vec))) r_old) \<and>
         norm1 (unnormalized link_mat dangle_vec damp
              (replicate (length dangle_vec) (1 / real (length dangle_vec))) r_old) = 1 \<and>
         (\<exists>r res. iteration link_mat dangle_vec damp
              (replicate (length dangle_vec) (1 / real (length dangle_vec))) r_old = Inr (r, res) \<and>
            prob_dist r \<and> length r = length dangle_vec)"
proof -
  let ?v = "unnormalized link_mat dangle_vec damp
              (replicate (length dangle_vec) (1 / real (length dangle_vec))) r_old"
  have nn: "list_all (\<lambda>x. 0 \<le> x) ?v" using assms(2-6) by (rule unnormalized_nonneg)
  have "sum_list ?v = 1" using assms(1,4,5,6) by (rule unnormalized_mass)
  then have n1: "norm1 ?v = 1" using nn by (simp add: norm1_nonneg_eq)
  have len: "length ?v = length dangle_vec"
    using assms(4) by (simp add: unnormalized_def length_vadd length_scale length_matvec loader_contract_def)
  have "iteration link_mat dangle_vec damp
          (replicate (length dangle_vec) (1 / real (length dangle_vec))) r_old
        = Inr (?v, norm1 (vsub r_old ?v))"
    by (simp add: iteration_def Let_def n1)
  moreover have "prob_dist ?v" using nn \<open>sum_list ?v = 1\<close> by (simp add: prob_dist_def)
  ultimately show ?thesis using nn n1 len by simp
qed

text \<open>
  C10: the division of line 65 never divides by zero. For \<open>n \<ge> 1\<close>, \<open>damp\<close> in
  \<open>[0, 1]\<close>, a matrix and flags that satisfy the loader's contract and a probability
  distribution \<open>r_old\<close>, the vector before normalisation,
  \<open>damp * danglingMass * u + (1 - damp) * u + damp * (link_mat \<cdot> r_old)\<close>, has
  non-negative entries and L1 norm exactly 1; the iteration returns, and its new vector
  is a probability distribution again.
\<close>

theorem normalization_well_defined:
  assumes "1 \<le> length dangle_vec" and "0 \<le> damp" "damp \<le> 1"
    and "loader_contract link_mat dangle_vec"
    and "prob_dist r_old" "length r_old = length dangle_vec"
  shows "list_all (\<lambda>x. 0 \<le> x)
           (unnormalized link_mat dangle_vec damp
              (replicate (length dangle_vec) (1 / real (length dangle_vec))) r_old) \<and>
         norm1 (unnormalized link_mat dangle_vec damp
              (replicate (length dangle_vec) (1 / real (length dangle_vec))) r_old) = 1 \<and>
         (\<exists>r res. iteration link_mat dangle_vec damp
              (replicate (length dangle_vec) (1 / real (length dangle_vec))) r_old = Inr (r, res) \<and>
            prob_dist r \<and> length r = length dangle_vec)"
  using assms by (rule iteration_contract)

theorem normalization_well_defined_witness:
  "list_all (\<lambda>x. 0 \<le> x)
     (unnormalized \<lparr>nrows = 2, ncols = 2, entries = [(1, 0, 1)]\<rparr> [0, 1] (1 / 2) [1 / 2, 1 / 2] [1 / 4, 3 / 4]) \<and>
   norm1 (unnormalized \<lparr>nrows = 2, ncols = 2, entries = [(1, 0, 1)]\<rparr> [0, 1] (1 / 2) [1 / 2, 1 / 2] [1 / 4, 3 / 4]) = 1"
  using normalization_well_defined
    [where dangle_vec = "[0, 1]" and damp = "1 / 2"
       and link_mat = "\<lparr>nrows = 2, ncols = 2, entries = [(1, 0, 1)]\<rparr>" and r_old = "[1 / 4, 3 / 4]"]
  by (simp add: loader_contract_def prob_dist_def col_sum_def upt_rec numeral_2_eq_2)

section \<open>Properties of the loader\<close>

subsection \<open>The example file\<close>

lemma replicate_3: "replicate 3 x = [x, x, x]"
  by (simp add: eval_nat_numeral)

lemma replicate_4: "replicate 4 x = [x, x, x, x]"
  by (simp add: eval_nat_numeral)

lemma example_loaded:
  "readLinksFile 3 4 example_rows =
     Inr (3, \<lparr>nrows = 3, ncols = 3,
              entries = [(1, 0, 1 / 2), (2, 0, 1 / 2), (2, 1, 1), (0, 2, 1)]\<rparr>, [0, 0, 0])"
  by (simp add: readLinksFile_def example_rows_def read_line_def setitem_def setitem32_def
      np_index_def to_int32_def fits_int32_def coo_matrix_def replicate_3 replicate_4
      numeral_2_eq_2 numeral_3_eq_3)

subsection \<open>What an accepted file leaves in the arrays\<close>

lemma np_index_nat: "np_index n (int k) = (if k < n then Inr k else Inl IndexError)"
  by (simp add: np_index_def)

lemma setitem_Inr:
  "setitem xs (int k) v = Inr ys \<Longrightarrow> k < length xs \<and> ys = xs[k := v]"
  by (simp add: setitem_def np_index_nat split: if_splits)

lemma setitem32_Inr:
  "setitem32 xs (int k) f = Inr ys \<Longrightarrow>
   k < length xs \<and> (\<exists>v. f = Some v \<and> fits_int32 v \<and> ys = xs[k := v])"
  by (auto simp: setitem32_def np_index_nat to_int32_def split: if_splits option.splits sum.splits)

lemma take_Suc_update: "k < length xs \<Longrightarrow> take (Suc k) (xs[k := v]) = take k xs @ [v]"
  by (simp add: take_Suc_conv_app_nth)

lemma write_links_Inr:
  assumes "write_links st source outdeg i ds = Inr st'" and "arrays_ok L st"
  shows "arrays_ok L st' \<and> links_seen st' = links_seen st \<and> dangle st' = dangle st \<and>
         (ds \<noteq> [] \<longrightarrow> links_seen st + i + length ds \<le> L) \<and>
         take (links_seen st + i + length ds) (triples st') =
           take (links_seen st + i) (triples st) @
           map (\<lambda>d. (source, field_val d, 1 / real outdeg)) ds \<and>
         (\<forall>d\<in>set ds. \<exists>v. d = Some v) \<and>
         (ds \<noteq> [] \<longrightarrow> fits_int32 source)"
  using assms
proof (induction ds arbitrary: st i)
  case Nil
  then show ?case by (simp add: arrays_ok_def)
next
  case (Cons d ds)
  let ?k = "links_seen st + i"
  from Cons.prems(1) obtain sources' links' normadj' where
    s: "setitem32 (sources st) (int ?k) (Some source) = Inr sources'" and
    l: "setitem32 (links st) (int ?k) d = Inr links'" and
    n: "setitem (normadj st) (int ?k) (1 / real outdeg) = Inr normadj'" and
    rec: "write_links (st\<lparr>sources := sources', links := links', normadj := normadj'\<rparr>)
            source outdeg (Suc i) ds = Inr st'"
    by (auto split: sum.splits)
  let ?st = "st\<lparr>sources := sources', links := links', normadj := normadj'\<rparr>"
  from setitem32_Inr [OF s] have k: "?k < length (sources st)"
    and src: "fits_int32 source" and s': "sources' = (sources st)[?k := source]"
    by auto
  from setitem32_Inr [OF l] obtain v where d: "d = Some v" and l': "links' = (links st)[?k := v]"
    by auto
  from setitem_Inr [OF n] have n': "normadj' = (normadj st)[?k := 1 / real outdeg]" by simp
  have ok: "arrays_ok L ?st" using Cons.prems(2) by (simp add: arrays_ok_def s' l' n')
  have kL: "?k < L" using k Cons.prems(2) by (simp add: arrays_ok_def)
  have tr: "triples ?st = (triples st)[?k := (source, v, 1 / real outdeg)]"
    by (simp add: triples_def s' l' n' zip_update)
  have len: "length (triples st) = L" using Cons.prems(2) by (simp add: triples_def arrays_ok_def)
  from Cons.IH [OF rec ok]
  have ih: "arrays_ok L st'" "links_seen st' = links_seen st" "dangle st' = dangle st"
    "ds \<noteq> [] \<longrightarrow> links_seen st + Suc i + length ds \<le> L"
    "take (links_seen st + Suc i + length ds) (triples st') =
       take (links_seen st + Suc i) (triples ?st) @
       map (\<lambda>d. (source, field_val d, 1 / real outdeg)) ds"
    "\<forall>d\<in>set ds. \<exists>v. d = Some v"
    by simp_all
  have "take (links_seen st + Suc i) (triples ?st) =
        take ?k (triples st) @ [(source, v, 1 / real outdeg)]"
    using kL len take_Suc_update [of ?k "triples st"] by (simp add: tr)
  moreover have "links_seen st + i + length (d # ds) \<le> L"
    using ih(4) kL by (cases ds) simp_all
  ultimately show ?case using ih src d by (simp add: field_val_def)
qed


lemma read_line_Inr:
  assumes "read_line st line = Inr st'" and "arrays_ok L st"
  shows "arrays_ok L st' \<and> line \<noteq> [] \<and> (\<forall>f\<in>set line. \<exists>v. f = Some v) \<and>
         links_seen st' = links_seen st + (length line - 1) \<and>
         take (links_seen st') (triples st') = take (links_seen st) (triples st) @ row_triples line \<and>
         (if 1 < length line
          then \<exists>k. np_index (length (dangle st)) (field_val (hd line)) = Inr k \<and>
                   dangle st' = (dangle st)[k := 0]
          else dangle st' = dangle st)"
proof (cases line)
  case Nil
  with assms show ?thesis by (simp add: read_line_def)
next
  case (Cons f dests)
  from assms(1) Cons obtain source where f: "f = Some source"
    by (cases f) (simp_all add: read_line_def)
  show ?thesis
  proof (cases dests)
    case Nil
    with assms Cons f show ?thesis by (simp add: read_line_def row_triples_def)
  next
    case (Cons d ds)
    with assms(1) \<open>line = f # dests\<close> f obtain dangle' st1 where
      dg: "setitem (dangle st) source 0 = Inr dangle'" and
      wl: "write_links (st\<lparr>dangle := dangle'\<rparr>) source (length dests) 0 dests = Inr st1" and
      st': "st' = st1\<lparr>links_seen := links_seen st1 + length dests\<rparr>"
      by (auto simp: read_line_def split: sum.splits)
    have ok: "arrays_ok L (st\<lparr>dangle := dangle'\<rparr>)" using assms(2) by (simp add: arrays_ok_def)
    from write_links_Inr [OF wl ok]
    have w: "arrays_ok L st1" "links_seen st1 = links_seen st" "dangle st1 = dangle'"
      "links_seen st + length dests \<le> L"
      "take (links_seen st + length dests) (triples st1) =
         take (links_seen st) (triples st) @
         map (\<lambda>d. (source, field_val d, 1 / real (length dests))) dests"
      "\<forall>d\<in>set dests. \<exists>v. d = Some v"
      using Cons by (simp_all add: triples_def)
    from dg obtain k where k: "np_index (length (dangle st)) source = Inr k"
      and dangle': "dangle' = (dangle st)[k := 0]"
      by (auto simp: setitem_def split: sum.splits)
    have "triples st' = triples st1" by (simp add: st' triples_def)
    with w k dangle' show ?thesis
      using \<open>line = f # dests\<close> f Cons
      by (simp add: st' arrays_ok_def row_triples_def field_val_def)
  qed
qed

lemma read_lines_Inr:
  assumes "read_lines st lines = Inr st'" and "arrays_ok L st"
  shows "arrays_ok L st' \<and> (\<forall>line\<in>set lines. line \<noteq> [] \<and> (\<forall>f\<in>set line. \<exists>v. f = Some v)) \<and>
         links_seen st' = links_seen st + dest_count lines \<and>
         take (links_seen st') (triples st') =
           take (links_seen st) (triples st) @ concat (map row_triples lines) \<and>
         length (dangle st') = length (dangle st) \<and>
         (\<forall>i<length (dangle st). dangle st' ! i =
            (if \<exists>line\<in>set lines. 1 < length line \<and>
                  np_index (length (dangle st)) (field_val (hd line)) = Inr i
             then 0 else dangle st ! i))"
  using assms
proof (induction lines arbitrary: st)
  case Nil
  then show ?case by (simp add: dest_count_def)
next
  case (Cons line rest)
  from Cons.prems(1) obtain st1 where
    one: "read_line st line = Inr st1" and more: "read_lines st1 rest = Inr st'"
    by (auto split: sum.splits)
  note r = read_line_Inr [OF one Cons.prems(2)]
  from r have ok1: "arrays_ok L st1" by simp
  note ih = Cons.IH [OF more ok1]
  have len1: "length (dangle st1) = length (dangle st)"
    using r by (auto split: if_splits)
  have dang: "dangle st' ! i =
            (if \<exists>l\<in>set (line # rest). 1 < length l \<and>
                  np_index (length (dangle st)) (field_val (hd l)) = Inr i
             then 0 else dangle st ! i)" if i: "i < length (dangle st)" for i
  proof -
    from ih i len1 have a: "dangle st' ! i =
            (if \<exists>l\<in>set rest. 1 < length l \<and>
                  np_index (length (dangle st)) (field_val (hd l)) = Inr i
             then 0 else dangle st1 ! i)" by simp
    have b: "dangle st1 ! i =
            (if 1 < length line \<and> np_index (length (dangle st)) (field_val (hd line)) = Inr i
             then 0 else dangle st ! i)"
      using r i by (auto split: if_splits)
    show ?thesis unfolding a b by auto
  qed
  have ls1: "links_seen st1 = links_seen st + (length line - 1)"
    and t1: "take (links_seen st1) (triples st1) = take (links_seen st) (triples st) @ row_triples line"
    and f1: "line \<noteq> []" "\<forall>f\<in>set line. \<exists>v. f = Some v"
    using r by blast+
  have ls: "links_seen st' = links_seen st1 + dest_count rest"
    and t: "take (links_seen st') (triples st') =
           take (links_seen st1) (triples st1) @ concat (map row_triples rest)"
    and f: "\<forall>l\<in>set rest. l \<noteq> [] \<and> (\<forall>f\<in>set l. \<exists>v. f = Some v)"
    and ok: "arrays_ok L st'" and len: "length (dangle st') = length (dangle st1)"
    using ih by blast+
  have "links_seen st' = links_seen st + dest_count (line # rest)"
    by (simp add: ls ls1 dest_count_def)
  moreover have "take (links_seen st') (triples st') =
           take (links_seen st) (triples st) @ concat (map row_triples (line # rest))"
    by (simp add: t t1)
  moreover have "\<forall>l\<in>set (line # rest). l \<noteq> [] \<and> (\<forall>f\<in>set l. \<exists>v. f = Some v)"
    using f f1 by simp
  ultimately show ?case using ok len len1 dang by simp
qed


lemma coo_matrix_Inr:
  assumes "coo_matrix data row col M N = Inr m"
  shows "0 \<le> M \<and> 0 \<le> N \<and> (\<forall>i\<in>set row. 0 \<le> i \<and> i < M) \<and> (\<forall>j\<in>set col. 0 \<le> j \<and> j < N) \<and>
         m = \<lparr>nrows = nat M, ncols = nat N,
               entries = map (\<lambda>(i, j, w). (nat i, nat j, w)) (zip row (zip col data))\<rparr>"
  using assms by (auto simp: coo_matrix_def list_ex_iff split: if_splits)

lemma swap_triples:
  assumes "length ss = length ls" "length ls = length ns"
  shows "map (\<lambda>(i, j, w). (nat i, nat j, w)) (zip ls (zip ss ns)) =
         map (\<lambda>(s, d, w). (nat d, nat s, w)) (zip ss (zip ls ns))"
  using assms by (intro nth_equalityI) simp_all

lemma row_source_in_triples:
  assumes "1 < length line"
  shows "\<exists>d w. (field_val (hd line), d, w) \<in> set (row_triples line)"
proof -
  from assms obtain f d ds where "line = f # d # ds"
    by (cases line; cases "tl line") auto
  then show ?thesis by (auto simp: row_triples_def)
qed

lemma readLinksFile_Inr:
  assumes "readLinksFile num_pages num_links lines = Inr (n, link_mat, dangle_vec)"
  shows "n = num_pages \<and> 0 \<le> num_pages \<and> int (dest_count lines) = num_links \<and>
         nrows link_mat = nat num_pages \<and> ncols link_mat = nat num_pages \<and>
         entries link_mat =
           map (\<lambda>(s, d, w). (nat d, nat s, w)) (concat (map row_triples lines)) \<and>
         (\<forall>(s, d, w)\<in>set (concat (map row_triples lines)).
            0 \<le> s \<and> s < num_pages \<and> 0 \<le> d \<and> d < num_pages) \<and>
         (\<forall>line\<in>set lines. line \<noteq> [] \<and> (\<forall>f\<in>set line. \<exists>v. f = Some v)) \<and>
         length dangle_vec = nat num_pages \<and>
         (\<forall>i<nat num_pages. dangle_vec ! i =
            (if \<exists>line\<in>set lines. 1 < length line \<and> hd line = Some (int i) then 0 else 1))"
proof -
  let ?L = "nat num_links"
  let ?st0 = "\<lparr>sources = replicate ?L 0, links = replicate ?L 0,
               normadj = replicate ?L 0, dangle = replicate (nat num_pages) 1,
               links_seen = 0\<rparr>"
  from assms have nonneg: "0 \<le> num_pages" "0 \<le> num_links"
    by (auto simp: readLinksFile_def split: if_splits)
  with assms obtain st where
    rd: "read_lines ?st0 lines = Inr st" and cnt: "int (links_seen st) = num_links" and
    coo: "coo_matrix (normadj st) (links st) (sources st) num_pages num_pages = Inr link_mat" and
    res: "n = num_pages" "dangle_vec = dangle st"
    by (auto simp: readLinksFile_def split: if_splits sum.splits)
  have ok0: "arrays_ok ?L ?st0" by (simp add: arrays_ok_def)
  note r = read_lines_Inr [OF rd ok0]
  from r have ok: "arrays_ok ?L st" by blast
  from r have fields: "\<forall>line\<in>set lines. line \<noteq> [] \<and> (\<forall>f\<in>set line. \<exists>v. f = Some v)"
    by blast
  from r have "links_seen st = links_seen ?st0 + dest_count lines" by blast
  then have ls: "links_seen st = dest_count lines" by simp
  from r have "take (links_seen st) (triples st) =
      take (links_seen ?st0) (triples ?st0) @ concat (map row_triples lines)" by blast
  then have tk: "take (links_seen st) (triples st) = concat (map row_triples lines)" by simp
  from r have "length (dangle st) = length (dangle ?st0)" by blast
  then have len: "length (dangle st) = nat num_pages" by simp
  from r have "\<forall>i<length (dangle ?st0). dangle st ! i =
            (if \<exists>line\<in>set lines. 1 < length line \<and>
                  np_index (length (dangle ?st0)) (field_val (hd line)) = Inr i
             then 0 else dangle ?st0 ! i)" by blast
  then have dg: "\<forall>i<nat num_pages. dangle st ! i =
            (if \<exists>line\<in>set lines. 1 < length line \<and>
                  np_index (nat num_pages) (field_val (hd line)) = Inr i
             then 0 else 1)"
    by (simp cong: if_cong)
  from cnt have full: "links_seen st = ?L" by simp
  have lens: "length (sources st) = ?L" "length (links st) = ?L" "length (normadj st) = ?L"
    using ok by (simp_all add: arrays_ok_def)
  have tr: "triples st = concat (map row_triples lines)"
    using tk full lens by (simp add: triples_def)
  note c = coo_matrix_Inr [OF coo]
  have ent: "entries link_mat = map (\<lambda>(s, d, w). (nat d, nat s, w)) (concat (map row_triples lines))"
    using c swap_triples [of "sources st" "links st" "normadj st"] lens
    by (simp add: tr [symmetric] triples_def)
  have range: "0 \<le> s \<and> s < num_pages \<and> 0 \<le> d \<and> d < num_pages"
    if "(s, d, w) \<in> set (concat (map row_triples lines))" for s d w
  proof -
    from that have "(s, d, w) \<in> set (zip (sources st) (zip (links st) (normadj st)))"
      by (simp add: tr [symmetric] triples_def)
    then have "s \<in> set (sources st)" "(d, w) \<in> set (zip (links st) (normadj st))"
      by (auto dest: set_zip_leftD set_zip_rightD)
    then have "s \<in> set (sources st)" "d \<in> set (links st)"
      by (auto dest: set_zip_leftD)
    with c show ?thesis by auto
  qed
  have idx: "(np_index (nat num_pages) (field_val (hd line)) = Inr i) = (hd line = Some (int i))"
    if line: "line \<in> set lines" "1 < length line" for line i
  proof -
    from row_source_in_triples [OF line(2)] obtain d w where
      "(field_val (hd line), d, w) \<in> set (row_triples line)" by blast
    with line(1) have "(field_val (hd line), d, w) \<in> set (concat (map row_triples lines))"
      by auto
    from range [OF this] have s: "0 \<le> field_val (hd line)" "field_val (hd line) < num_pages"
      by simp_all
    from fields line have "\<exists>v. hd line = Some v" by (cases line) auto
    then obtain v where v: "hd line = Some v" by blast
    with s show ?thesis by (auto simp: np_index_def field_val_def)
  qed
  have dg': "dangle st ! i =
            (if \<exists>line\<in>set lines. 1 < length line \<and> hd line = Some (int i) then 0 else 1)"
    if "i < nat num_pages" for i
  proof -
    have "(\<exists>line\<in>set lines. 1 < length line \<and>
                  np_index (nat num_pages) (field_val (hd line)) = Inr i)
          = (\<exists>line\<in>set lines. 1 < length line \<and> hd line = Some (int i))"
      using idx by blast
    with dg that show ?thesis by simp
  qed
  have range': "\<forall>(s, d, w)\<in>set (concat (map row_triples lines)).
            0 \<le> s \<and> s < num_pages \<and> 0 \<le> d \<and> d < num_pages"
    using range by blast
  have "int (dest_count lines) = num_links" using cnt ls by simp
  moreover have "nrows link_mat = nat num_pages" "ncols link_mat = nat num_pages"
    using c by simp_all
  moreover have "length dangle_vec = nat num_pages" using len res by simp
  moreover have "\<forall>i<nat num_pages. dangle_vec ! i =
            (if \<exists>line\<in>set lines. 1 < length line \<and> hd line = Some (int i) then 0 else 1)"
    using dg' res by blast
  ultimately show ?thesis
    using res(1) nonneg(1) ent range' fields by blast
qed



lemma row_triples_mem:
  assumes "(s, d, w) \<in> set (row_triples line)"
  shows "1 < length line \<and> s = field_val (hd line) \<and> w = 1 / real (length line - 1)"
proof -
  from assms obtain f dests where line: "line = f # dests"
    by (cases line) (auto simp: row_triples_def)
  with assms have "dests \<noteq> []" by (auto simp: row_triples_def)
  with assms line show ?thesis by (cases dests) (auto simp: row_triples_def)
qed

subsection \<open>The dangling flags\<close>

lemma accepted_flags:
  assumes "readLinksFile num_pages num_links lines = Inr (n, link_mat, dangle_vec)"
    and "i < nat n"
  shows "(dangle_vec ! i = 1) = (\<forall>(row, col, w)\<in>set (entries link_mat). col \<noteq> i) \<and>
         (dangle_vec ! i = 0 \<or> dangle_vec ! i = 1) \<and> length dangle_vec = nat n"
proof -
  note r = readLinksFile_Inr [OF assms(1)]
  from r have n: "n = num_pages" by blast
  from r have ent: "entries link_mat =
           map (\<lambda>(s, d, w). (nat d, nat s, w)) (concat (map row_triples lines))" by blast
  from r have range: "\<forall>(s, d, w)\<in>set (concat (map row_triples lines)).
            0 \<le> s \<and> s < num_pages \<and> 0 \<le> d \<and> d < num_pages" by blast
  from r have fields: "\<forall>line\<in>set lines. line \<noteq> [] \<and> (\<forall>f\<in>set line. \<exists>v. f = Some v)" by blast
  from r have len: "length dangle_vec = nat num_pages" by blast
  from r assms(2) n have dg: "dangle_vec ! i =
            (if \<exists>line\<in>set lines. 1 < length line \<and> hd line = Some (int i) then 0 else 1)"
    by blast
  have "(\<exists>(row, col, w)\<in>set (entries link_mat). col = i)
        = (\<exists>line\<in>set lines. 1 < length line \<and> hd line = Some (int i))"
  proof
    assume "\<exists>(row, col, w)\<in>set (entries link_mat). col = i"
    then obtain s d w where t: "(s, d, w) \<in> set (concat (map row_triples lines))" and s: "nat s = i"
      by (auto simp: ent)
    from t obtain line where line: "line \<in> set lines" "(s, d, w) \<in> set (row_triples line)"
      by auto
    from range t have "0 \<le> s" by blast
    with s have si: "s = int i" by simp
    from row_triples_mem [OF line(2)] have l: "1 < length line" "s = field_val (hd line)"
      by simp_all
    from fields line(1) l(1) have "\<exists>v. hd line = Some v" by (cases line) auto
    with l(2) si have "hd line = Some (int i)" by (auto simp: field_val_def)
    with line(1) l(1) show "\<exists>line\<in>set lines. 1 < length line \<and> hd line = Some (int i)" by blast
  next
    assume "\<exists>line\<in>set lines. 1 < length line \<and> hd line = Some (int i)"
    then obtain line where line: "line \<in> set lines" "1 < length line" "hd line = Some (int i)"
      by blast
    from row_source_in_triples [OF line(2)] line(3) obtain d w where
      "(int i, d, w) \<in> set (row_triples line)" by (auto simp: field_val_def)
    with line(1) have "(int i, d, w) \<in> set (concat (map row_triples lines))" by auto
    then have "(nat d, nat (int i), w) \<in> set (entries link_mat)"
      unfolding ent by (force simp: image_iff)
    then show "\<exists>(row, col, w)\<in>set (entries link_mat). col = i" by force
  qed
  then have "(\<forall>(row, col, w)\<in>set (entries link_mat). col \<noteq> i)
        = (\<not> (\<exists>line\<in>set lines. 1 < length line \<and> hd line = Some (int i)))"
    by (auto simp: case_prod_beta)
  with dg len n show ?thesis by simp
qed

text \<open>
  C5: for every input that the loader accepts and every node \<open>i\<close> in \<open>[0, n)\<close>, the
  flag \<open>dangle[i]\<close> is set (1) if and only if no stored triple has the source \<open>i\<close>; a
  flag is 0 or 1 and there are \<open>n\<close> of them.
\<close>

theorem dangling_iff_no_triple:
  assumes "readLinksFile num_pages num_links lines = Inr (n, link_mat, dangle_vec)"
    and "i < nat n"
  shows "(dangle_vec ! i = 1) = (\<forall>(row, col, w)\<in>set (entries link_mat). col \<noteq> i) \<and>
         (dangle_vec ! i = 0 \<or> dangle_vec ! i = 1) \<and> length dangle_vec = nat n"
  using assms by (rule accepted_flags)

theorem dangling_iff_no_triple_witness:
  "(([0, 0, 1] :: int list) ! 2 = 1) =
     (\<forall>(row, col, w)\<in>set (entries \<lparr>nrows = 3, ncols = 3,
          entries = [(1, 0, 1 / 2), (2, 0, 1 / 2), (2, 1, 1)]\<rparr>). col \<noteq> 2)"
  using dangling_iff_no_triple [of 3 3 "[[Some 0, Some 1, Some 2], [Some 1, Some 2], [Some 2]]" 3
      "\<lparr>nrows = 3, ncols = 3, entries = [(1, 0, 1 / 2), (2, 0, 1 / 2), (2, 1, 1)]\<rparr>" "[0, 0, 1]" 2]
  by (simp add: readLinksFile_def read_line_def setitem_def setitem32_def
      np_index_def to_int32_def fits_int32_def coo_matrix_def replicate_3
      numeral_2_eq_2 numeral_3_eq_3)

subsection \<open>Ids outside the range\<close>




subsection \<open>The weights of a source\<close>

lemma row_weighted:
  fixes \<phi> :: "real \<Rightarrow> real"
  assumes "\<forall>f\<in>set line. \<exists>v. f = Some v" and "1 < length line \<longrightarrow> 0 \<le> field_val (hd line)"
  shows "sum_list (map (\<lambda>(row, col, w). if col = s then \<phi> w else 0)
                    (map (\<lambda>(s, d, w). (nat d, nat s, w)) (row_triples line)))
         = (if 1 < length line \<and> hd line = Some (int s)
            then real (length line - 1) * \<phi> (1 / real (length line - 1)) else 0)"
proof (cases line)
  case Nil
  then show ?thesis by (simp add: row_triples_def)
next
  case (Cons f dests)
  with assms(1) obtain v where f: "f = Some v" by auto
  have "map (\<lambda>(row, col, w). if col = s then \<phi> w else 0)
          (map (\<lambda>(s, d, w). (nat d, nat s, w)) (row_triples line))
        = map (\<lambda>d. if nat v = s then \<phi> (1 / real (length dests)) else 0) dests"
    by (simp add: Cons f row_triples_def field_val_def comp_def)
  then have "sum_list (map (\<lambda>(row, col, w). if col = s then \<phi> w else 0)
          (map (\<lambda>(s, d, w). (nat d, nat s, w)) (row_triples line)))
        = real (length dests) * (if nat v = s then \<phi> (1 / real (length dests)) else 0)"
    by (simp add: sum_list_triv)
  moreover have "nat v = s \<longleftrightarrow> v = int s" if "dests \<noteq> []"
    using assms(2) that Cons f by (cases dests) (auto simp: field_val_def)
  ultimately show ?thesis
    using Cons f by (cases dests) auto
qed

lemma weighted_column:
  fixes \<phi> :: "real \<Rightarrow> real"
  assumes "\<forall>line\<in>set lines. (\<forall>f\<in>set line. \<exists>v. f = Some v) \<and>
                             (1 < length line \<longrightarrow> 0 \<le> field_val (hd line))"
  shows "sum_list (map (\<lambda>(row, col, w). if col = s then \<phi> w else 0)
                    (map (\<lambda>(s, d, w). (nat d, nat s, w)) (concat (map row_triples lines))))
         = sum_list (map (\<lambda>line. real (length line - 1) * \<phi> (1 / real (length line - 1)))
                      (rows_of (int s) lines))"
  using assms
proof (induction lines)
  case Nil
  then show ?case by (simp add: rows_of_def)
next
  case (Cons line rest)
  from Cons.prems have a: "\<forall>f\<in>set line. \<exists>v. f = Some v"
    "1 < length line \<longrightarrow> 0 \<le> field_val (hd line)" by simp_all
  from Cons have ih: "sum_list (map (\<lambda>(row, col, w). if col = s then \<phi> w else 0)
                    (map (\<lambda>(s, d, w). (nat d, nat s, w)) (concat (map row_triples rest))))
         = sum_list (map (\<lambda>line. real (length line - 1) * \<phi> (1 / real (length line - 1)))
                      (rows_of (int s) rest))" by simp
  show ?case
    using row_weighted [OF a, of s \<phi>] ih by (simp add: rows_of_def)
qed

lemma accepted_rows_good:
  assumes "readLinksFile num_pages num_links lines = Inr (n, link_mat, dangle_vec)"
  shows "\<forall>line\<in>set lines. (\<forall>f\<in>set line. \<exists>v. f = Some v) \<and>
                             (1 < length line \<longrightarrow> 0 \<le> field_val (hd line))"
proof
  fix line assume line: "line \<in> set lines"
  note r = readLinksFile_Inr [OF assms]
  from r have range: "\<forall>(s, d, w)\<in>set (concat (map row_triples lines)).
            0 \<le> s \<and> s < num_pages \<and> 0 \<le> d \<and> d < num_pages" by blast
  from r line have fields: "\<forall>f\<in>set line. \<exists>v. f = Some v" by blast
  have "0 \<le> field_val (hd line)" if "1 < length line"
  proof -
    from row_source_in_triples [OF that] obtain d w where
      "(field_val (hd line), d, w) \<in> set (row_triples line)" by blast
    with line have "(field_val (hd line), d, w) \<in> set (concat (map row_triples lines))" by auto
    with range show ?thesis by fastforce
  qed
  with fields show "(\<forall>f\<in>set line. \<exists>v. f = Some v) \<and>
                             (1 < length line \<longrightarrow> 0 \<le> field_val (hd line))" by blast
qed

lemma accepted_weighted_column:
  fixes \<phi> :: "real \<Rightarrow> real"
  assumes "readLinksFile num_pages num_links lines = Inr (n, link_mat, dangle_vec)"
  shows "sum_list (map (\<lambda>(row, col, w). if col = s then \<phi> w else 0) (entries link_mat))
         = sum_list (map (\<lambda>line. real (length line - 1) * \<phi> (1 / real (length line - 1)))
                      (rows_of (int s) lines))"
proof -
  from readLinksFile_Inr [OF assms] have "entries link_mat =
           map (\<lambda>(s, d, w). (nat d, nat s, w)) (concat (map row_triples lines))" by blast
  then show ?thesis using weighted_column [OF accepted_rows_good [OF assms]] by simp
qed

lemma rows_of_longer: "line \<in> set (rows_of s lines) \<Longrightarrow> 1 < length line"
  by (simp add: rows_of_def)

lemma col_sum_rows:
  assumes "readLinksFile num_pages num_links lines = Inr (n, link_mat, dangle_vec)"
  shows "col_sum link_mat s = real (length (rows_of (int s) lines))"
proof -
  have "map (\<lambda>line. real (length line - 1) * (1 / real (length line - 1))) (rows_of (int s) lines)
        = map (\<lambda>line. 1) (rows_of (int s) lines)"
    by (rule map_cong [OF refl]) (auto dest: rows_of_longer)
  then have "sum_list (map (\<lambda>line. real (length line - 1) * (1 / real (length line - 1)))
                (rows_of (int s) lines)) = real (length (rows_of (int s) lines))"
    by (simp only: sum_list_triv)
  with accepted_weighted_column [OF assms, of s "\<lambda>w. w"] show ?thesis
    by (simp only: col_sum_def)
qed

lemma length_filter_sum:
  "real (length (filter P xs)) = sum_list (map (\<lambda>x. if P x then 1 else 0) xs)"
  by (induction xs) simp_all

lemma accepted_entry_row:
  assumes "readLinksFile num_pages num_links lines = Inr (n, link_mat, dangle_vec)"
    and "(row, col, w) \<in> set (entries link_mat)"
  shows "\<exists>line\<in>set (rows_of (int col) lines). w = 1 / real (length line - 1)"
proof -
  note r = readLinksFile_Inr [OF assms(1)]
  from r have ent: "entries link_mat =
           map (\<lambda>(s, d, w). (nat d, nat s, w)) (concat (map row_triples lines))" by blast
  from r have range: "\<forall>(s, d, w)\<in>set (concat (map row_triples lines)).
            0 \<le> s \<and> s < num_pages \<and> 0 \<le> d \<and> d < num_pages" by blast
  from r have fields: "\<forall>line\<in>set lines. line \<noteq> [] \<and> (\<forall>f\<in>set line. \<exists>v. f = Some v)" by blast
  from assms(2) obtain s d where t: "(s, d, w) \<in> set (concat (map row_triples lines))"
    and s: "nat s = col" by (auto simp: ent)
  from t obtain line where line: "line \<in> set lines" "(s, d, w) \<in> set (row_triples line)"
    by auto
  from range t have "0 \<le> s" by blast
  with s have si: "s = int col" by simp
  from row_triples_mem [OF line(2)] have l: "1 < length line" "s = field_val (hd line)"
    "w = 1 / real (length line - 1)" by simp_all
  from fields line(1) l(1) have "\<exists>v. hd line = Some v" by (cases line) auto
  with l(2) si have "hd line = Some (int col)" by (auto simp: field_val_def)
  with line(1) l(1) have "line \<in> set (rows_of (int col) lines)" by (simp add: rows_of_def)
  with l(3) show ?thesis by blast
qed

text \<open>
  C2, as stated, fails when a source id appears on two rows: each row writes the weight
  \<open>1 / outdeg\<close> of its own destinations, and the weights of the source add up to the
  number of its rows.
\<close>

theorem repeated_source_column_sum:
  "readLinksFile 2 2 [[Some 0, Some 1], [Some 0, Some 1]] =
     Inr (2, \<lparr>nrows = 2, ncols = 2, entries = [(1, 0, 1), (1, 0, 1)]\<rparr>, [0, 1]) \<and>
   col_sum \<lparr>nrows = 2, ncols = 2, entries = [(1, 0, 1), (1, 0, 1)]\<rparr> 0 = 2"
  by (simp add: readLinksFile_def read_line_def setitem_def setitem32_def
      np_index_def to_int32_def fits_int32_def coo_matrix_def col_sum_def numeral_2_eq_2)

text \<open>
  C2 (amended): for every input that the loader accepts and every non-dangling node
  \<open>s\<close> that is the source of no more than one row with destinations, the weights of
  the stored triples with source \<open>s\<close> sum to 1, and each such weight is 1 over the
  number of these triples.
\<close>

theorem column_sum_one:
  assumes "readLinksFile num_pages num_links lines = Inr (n, link_mat, dangle_vec)"
    and "s < nat n" and "dangle_vec ! s = 0" and "length (rows_of (int s) lines) \<le> 1"
  shows "col_sum link_mat s = 1 \<and>
         (\<forall>(row, col, w)\<in>set (entries link_mat).
            col = s \<longrightarrow>
            w = 1 / real (length (filter (\<lambda>(row, col, w). col = s) (entries link_mat))))"
proof -
  note r = readLinksFile_Inr [OF assms(1)]
  from r have n: "n = num_pages" by blast
  from r assms(2) n have "dangle_vec ! s =
            (if \<exists>line\<in>set lines. 1 < length line \<and> hd line = Some (int s) then 0 else 1)"
    by blast
  with assms(3) obtain line where "line \<in> set lines" "1 < length line" "hd line = Some (int s)"
    by (auto split: if_splits)
  then have "line \<in> set (rows_of (int s) lines)" by (simp add: rows_of_def)
  then have "0 < length (rows_of (int s) lines)" by (cases "rows_of (int s) lines") auto
  with assms(4) have one: "length (rows_of (int s) lines) = 1" by linarith
  then obtain r0 where r0: "rows_of (int s) lines = [r0]"
    by (cases "rows_of (int s) lines") auto
  have sum: "col_sum link_mat s = 1" using one by (simp add: col_sum_rows [OF assms(1)])
  have eq: "(\<lambda>x. if (case x of (row, col, w) \<Rightarrow> col = s) then 1 else 0)
        = (\<lambda>(row :: nat, col, w :: real). if col = s then (1::real) else 0)"
    by (auto simp: fun_eq_iff)
  have "real (length (filter (\<lambda>(row, col, w). col = s) (entries link_mat)))
        = sum_list (map (\<lambda>x. if (case x of (row, col, w) \<Rightarrow> col = s) then 1 else 0)
                     (entries link_mat))"
    by (rule length_filter_sum)
  also have "\<dots> = sum_list (map (\<lambda>(row, col, w). if col = s then 1 else 0) (entries link_mat))"
    by (simp only: eq)
  also have "\<dots> = real (length r0 - 1)"
    using accepted_weighted_column [OF assms(1), of s "\<lambda>w. 1"] by (simp add: r0)
  finally have cnt: "real (length (filter (\<lambda>(row, col, w). col = s) (entries link_mat)))
        = real (length r0 - 1)" .
  have "w = 1 / real (length (filter (\<lambda>(row, col, w). col = s) (entries link_mat)))"
    if "(row, s, w) \<in> set (entries link_mat)" for row w
  proof -
    from accepted_entry_row [OF assms(1) that] r0 have "w = 1 / real (length r0 - 1)" by simp
    with cnt show ?thesis by simp
  qed
  with sum show ?thesis by blast
qed

theorem column_sum_one_witness:
  "col_sum \<lparr>nrows = 3, ncols = 3, entries = [(1, 0, 1 / 2), (2, 0, 1 / 2), (2, 1, 1), (0, 2, 1)]\<rparr> 0 = 1"
  using column_sum_one [of 3 4 example_rows 3
      "\<lparr>nrows = 3, ncols = 3, entries = [(1, 0, 1 / 2), (2, 0, 1 / 2), (2, 1, 1), (0, 2, 1)]\<rparr>"
      "[0, 0, 0]" 0]
  by (simp add: example_loaded example_rows_def rows_of_def col_sum_def)

subsection \<open>The declared number of links\<close>

lemma setitem32_no_assert: "setitem32 xs i f \<noteq> Inl AssertionError"
  by (simp add: setitem32_def np_index_def to_int32_def fits_int32_def split: sum.splits option.splits)

lemma setitem_no_assert: "setitem xs i v \<noteq> Inl AssertionError"
  by (simp add: setitem_def np_index_def split: sum.splits)

lemma write_links_no_assert: "write_links st source outdeg i ds \<noteq> Inl AssertionError"
proof (induction ds arbitrary: st i)
  case Nil
  show ?case by simp
next
  case (Cons d ds)
  show ?case
    by (auto simp: Cons.IH setitem32_no_assert setitem_no_assert split: sum.splits)
qed

lemma read_line_no_assert: "read_line st line \<noteq> Inl AssertionError"
  by (auto simp: read_line_def Let_def write_links_no_assert setitem_no_assert
      split: list.splits option.splits sum.splits)

lemma read_lines_no_assert: "read_lines st lines \<noteq> Inl AssertionError"
proof (induction lines arbitrary: st)
  case Nil
  show ?case by simp
next
  case (Cons line rest)
  show ?case by (auto simp: Cons.IH read_line_no_assert split: sum.splits)
qed

lemma coo_matrix_no_assert: "coo_matrix data row col M N \<noteq> Inl AssertionError"
  by (simp add: coo_matrix_def)

lemma write_links_succeeds:
  assumes "arrays_ok L st" and "links_seen st + i + length ds \<le> L"
    and "fits_int32 source"
    and "list_all (\<lambda>d. case d of None \<Rightarrow> False | Some v \<Rightarrow> fits_int32 v) ds"
  shows "\<exists>st'. write_links st source outdeg i ds = Inr st'"
  using assms
proof (induction ds arbitrary: st i)
  case Nil
  show ?case by simp
next
  case (Cons d ds)
  from Cons.prems(4) obtain v where d: "d = Some v" and v: "fits_int32 v"
    by (cases d) auto
  let ?k = "links_seen st + i"
  have k: "?k < length (sources st)" "?k < length (links st)" "?k < length (normadj st)"
    using Cons.prems(1,2) by (simp_all add: arrays_ok_def)
  let ?st = "st\<lparr>sources := (sources st)[?k := source], links := (links st)[?k := v],
                normadj := (normadj st)[?k := 1 / real outdeg]\<rparr>"
  have step: "write_links st source outdeg i (d # ds) = write_links ?st source outdeg (Suc i) ds"
    using k v Cons.prems(3)
    by (simp add: d setitem32_def setitem_def np_index_nat to_int32_def del: of_nat_add)
  have "arrays_ok L ?st" "links_seen ?st + Suc i + length ds \<le> L"
    using Cons.prems(1,2) by (simp_all add: arrays_ok_def)
  from Cons.IH [OF this Cons.prems(3)] Cons.prems(4) show ?case
    by (simp only: step) simp
qed

lemma read_line_succeeds:
  assumes "arrays_ok L st" and "good_row n line" and "length (dangle st) = nat n"
    and "links_seen st + (length line - 1) \<le> L"
  shows "\<exists>st'. read_line st line = Inr st'"
proof -
  from assms(2) obtain s dests where line: "line = Some s # dests"
    by (cases line; cases "hd line") (auto simp: good_row_def)
  show ?thesis
  proof (cases dests)
    case Nil
    with line show ?thesis by (simp add: read_line_def)
  next
    case (Cons d ds)
    with assms(2) line have s: "0 \<le> s" "s < n" "fits_int32 s"
      and ds: "list_all (\<lambda>d. case d of None \<Rightarrow> False | Some v \<Rightarrow> 0 \<le> v \<and> v < n \<and> fits_int32 v) dests"
      by (auto simp: good_row_def)
    have dg: "setitem (dangle st) s 0 = Inr ((dangle st)[nat s := 0])"
      using s assms(3) by (simp add: setitem_def np_index_def)
    have ok: "arrays_ok L (st\<lparr>dangle := (dangle st)[nat s := 0]\<rparr>)"
      using assms(1) by (simp add: arrays_ok_def)
    have ds': "list_all (\<lambda>d. case d of None \<Rightarrow> False | Some v \<Rightarrow> fits_int32 v) dests"
      using ds by (auto simp: list_all_iff split: option.splits)
    have "\<exists>st'. write_links (st\<lparr>dangle := (dangle st)[nat s := 0]\<rparr>) s (length dests) 0 dests = Inr st'"
      using ok assms(4) s line ds' by (intro write_links_succeeds) simp_all
    then show ?thesis
      using line Cons dg by (auto simp: read_line_def)
  qed
qed

lemma read_lines_succeeds:
  assumes "arrays_ok L st" and "list_all (good_row n) lines" and "length (dangle st) = nat n"
    and "links_seen st + dest_count lines \<le> L"
  shows "\<exists>st'. read_lines st lines = Inr st'"
  using assms
proof (induction lines arbitrary: st)
  case Nil
  show ?case by simp
next
  case (Cons line rest)
  have room: "links_seen st + (length line - 1) \<le> L"
    using Cons.prems(4) by (simp add: dest_count_def)
  from Cons.prems(2) have "good_row n line" by simp
  from read_line_succeeds [OF Cons.prems(1) this Cons.prems(3) room]
  obtain st1 where one: "read_line st line = Inr st1" by blast
  note r = read_line_Inr [OF one Cons.prems(1)]
  from r have ok1: "arrays_ok L st1" by blast
  from r have ls1: "links_seen st1 = links_seen st + (length line - 1)" by blast
  from r have "length (dangle st1) = length (dangle st)" by (auto split: if_splits)
  with Cons.prems(3) have len1: "length (dangle st1) = nat n" by simp
  have room1: "links_seen st1 + dest_count rest \<le> L"
    using Cons.prems(4) ls1 by (simp add: dest_count_def)
  from Cons.prems(2) have "list_all (good_row n) rest" by simp
  from Cons.IH [OF ok1 this len1 room1] one show ?case by simp
qed

lemma good_row_triples:
  assumes "good_row n line" and "(s, d, w) \<in> set (row_triples line)"
  shows "0 \<le> s \<and> s < n \<and> 0 \<le> d \<and> d < n"
proof -
  from assms(1) obtain s' dests where line: "line = Some s' # dests"
    by (cases line; cases "hd line") (auto simp: good_row_def)
  from assms(2) line obtain f where f: "f \<in> set dests" "d = field_val f" and s: "s = s'"
    by (auto simp: row_triples_def field_val_def)
  from f(1) have "dests \<noteq> []" by auto
  with assms(1) line have "0 \<le> s'" "s' < n" by (auto simp: good_row_def)
  moreover from assms(1) line f have "0 \<le> d \<and> d < n"
    by (auto simp: good_row_def list_all_iff field_val_def split: option.splits)
  ultimately show ?thesis using s by simp
qed

lemma well_formed_accepted:
  assumes "0 \<le> num_pages" and "int (dest_count lines) = num_links"
    and "list_all (good_row num_pages) lines"
  shows "\<exists>link_mat dangle_vec.
           readLinksFile num_pages num_links lines = Inr (num_pages, link_mat, dangle_vec)"
proof -
  let ?L = "nat num_links"
  let ?st0 = "\<lparr>sources = replicate ?L 0, links = replicate ?L 0,
               normadj = replicate ?L 0, dangle = replicate (nat num_pages) 1,
               links_seen = 0\<rparr>"
  have ok0: "arrays_ok ?L ?st0" by (simp add: arrays_ok_def)
  have dc: "dest_count lines = ?L" using assms(2) by auto
  have "\<exists>st. read_lines ?st0 lines = Inr st"
  proof (rule read_lines_succeeds [OF ok0 assms(3)])
    show "length (dangle ?st0) = nat num_pages" by simp
    show "links_seen ?st0 + dest_count lines \<le> ?L" using dc by simp
  qed
  then obtain st where rd: "read_lines ?st0 lines = Inr st" by blast
  note r = read_lines_Inr [OF rd ok0]
  from r have ok: "arrays_ok ?L st" by blast
  from r have "links_seen st = links_seen ?st0 + dest_count lines" by blast
  with assms(2) have cnt: "int (links_seen st) = num_links" by simp
  then have full: "links_seen st = ?L" by simp
  from r have "take (links_seen st) (triples st) =
      take (links_seen ?st0) (triples ?st0) @ concat (map row_triples lines)" by blast
  then have tk: "take (links_seen st) (triples st) = concat (map row_triples lines)" by simp
  have lens: "length (sources st) = ?L" "length (links st) = ?L" "length (normadj st) = ?L"
    using ok by (simp_all add: arrays_ok_def)
  have tr: "triples st = concat (map row_triples lines)"
    using tk full lens by (simp add: triples_def)
  have range: "0 \<le> s \<and> s < num_pages \<and> 0 \<le> d \<and> d < num_pages"
    if "(s, d, w) \<in> set (triples st)" for s d w
  proof -
    from that tr obtain line where "line \<in> set lines" "(s, d, w) \<in> set (row_triples line)"
      by auto
    with assms(3) show ?thesis by (auto simp: list_all_iff dest: good_row_triples)
  qed
  have src: "0 \<le> s \<and> s < num_pages" if "s \<in> set (sources st)" for s
  proof -
    from that obtain k where k: "k < ?L" "sources st ! k = s"
      using lens by (auto simp: in_set_conv_nth)
    then have "(s, links st ! k, normadj st ! k) \<in> set (triples st)"
      using lens by (auto simp: triples_def in_set_conv_nth)
    from range [OF this] show ?thesis by simp
  qed
  have dst: "0 \<le> d \<and> d < num_pages" if "d \<in> set (links st)" for d
  proof -
    from that obtain k where k: "k < ?L" "links st ! k = d"
      using lens by (auto simp: in_set_conv_nth)
    then have "(sources st ! k, d, normadj st ! k) \<in> set (triples st)"
      using lens by (auto simp: triples_def in_set_conv_nth)
    from range [OF this] show ?thesis by simp
  qed
  have "\<not> list_ex (\<lambda>i. i < 0 \<or> num_pages \<le> i) (links st)"
    "\<not> list_ex (\<lambda>j. j < 0 \<or> num_pages \<le> j) (sources st)"
    using src dst by (fastforce simp: list_ex_iff)+
  then have "\<exists>link_mat. coo_matrix (normadj st) (links st) (sources st) num_pages num_pages = Inr link_mat"
    using assms(1) by (simp add: coo_matrix_def)
  with rd cnt assms(1) show ?thesis
    using \<open>0 \<le> num_pages\<close> by (auto simp: readLinksFile_def)
qed


text \<open>
  C6: when the number of destination fields of the file differs from the declared
  number of links, the loader fails and returns no graph (too few leave the assertion
  of line 93 to fail, too many run over the end of the arrays); when the two numbers
  agree, the assertion of line 93 does not fail, and a file whose rows are all well
  formed is accepted.
\<close>

theorem edge_count_checked:
  "(int (dest_count lines) \<noteq> num_links \<longrightarrow>
      (\<exists>e. readLinksFile num_pages num_links lines = Inl e)) \<and>
   (int (dest_count lines) = num_links \<longrightarrow>
      readLinksFile num_pages num_links lines \<noteq> Inl AssertionError \<and>
      (0 \<le> num_pages \<and> list_all (good_row num_pages) lines \<longrightarrow>
         (\<exists>link_mat dangle_vec.
            readLinksFile num_pages num_links lines = Inr (num_pages, link_mat, dangle_vec))))"
proof (intro conjI impI)
  assume ne: "int (dest_count lines) \<noteq> num_links"
  show "\<exists>e. readLinksFile num_pages num_links lines = Inl e"
  proof (cases "readLinksFile num_pages num_links lines")
    case (Inl e)
    then show ?thesis by blast
  next
    case (Inr g)
    obtain n link_mat dangle_vec where "g = (n, link_mat, dangle_vec)" by (cases g)
    with Inr readLinksFile_Inr [of num_pages num_links lines n link_mat dangle_vec]
    have "int (dest_count lines) = num_links" by blast
    with ne show ?thesis by simp
  qed
next
  assume eq: "int (dest_count lines) = num_links"
  let ?L = "nat num_links"
  let ?st0 = "\<lparr>sources = replicate ?L 0, links = replicate ?L 0,
               normadj = replicate ?L 0, dangle = replicate (nat num_pages) 1,
               links_seen = 0\<rparr>"
  have ok0: "arrays_ok ?L ?st0" by (simp add: arrays_ok_def)
  show "readLinksFile num_pages num_links lines \<noteq> Inl AssertionError"
  proof (cases "read_lines ?st0 lines")
    case (Inl e)
    with read_lines_no_assert [of ?st0 lines] show ?thesis
      by (simp add: readLinksFile_def)
  next
    case (Inr st)
    from read_lines_Inr [OF Inr ok0]
    have "links_seen st = links_seen ?st0 + dest_count lines" by blast
    with eq have "int (links_seen st) = num_links" by simp
    with Inr show ?thesis
      by (auto simp: readLinksFile_def coo_matrix_no_assert split: sum.splits)
  qed
next
  assume "int (dest_count lines) = num_links"
    and "0 \<le> num_pages \<and> list_all (good_row num_pages) lines"
  then show "\<exists>link_mat dangle_vec.
      readLinksFile num_pages num_links lines = Inr (num_pages, link_mat, dangle_vec)"
    by (intro well_formed_accepted) simp_all
qed

theorem edge_count_checked_witness:
  "(\<exists>e. readLinksFile 3 5 example_rows = Inl e) \<and>
   readLinksFile 3 4 example_rows \<noteq> Inl AssertionError"
  using edge_count_checked [of example_rows 5 3] edge_count_checked [of example_rows 4 3]
  by (simp add: dest_count_def example_rows_def)


section \<open>From the file to the ranks\<close>

text \<open>
  A file that is accepted and names every source on one row at most gives the solver
  what it expects; the solver then returns, whatever the number of iterations, and the
  vector it returns is a probability distribution.
\<close>

lemma accepted_contract:
  assumes acc: "readLinksFile num_pages num_links lines = Inr (n, link_mat, dangle_vec)"
    and single: "\<forall>s<nat n. length (rows_of (int s) lines) \<le> 1"
  shows "loader_contract link_mat dangle_vec"
proof -
  note r = readLinksFile_Inr [OF acc]
  from r have n: "n = num_pages" by blast
  from r have shape: "nrows link_mat = nat num_pages" "ncols link_mat = nat num_pages" by blast+
  from r have len: "length dangle_vec = nat num_pages" by blast
  from r have ent: "entries link_mat =
           map (\<lambda>(s, d, w). (nat d, nat s, w)) (concat (map row_triples lines))" by blast
  from r have range: "\<forall>(s, d, w)\<in>set (concat (map row_triples lines)).
            0 \<le> s \<and> s < num_pages \<and> 0 \<le> d \<and> d < num_pages" by blast
  have inside: "row < nrows link_mat \<and> col < ncols link_mat \<and> 0 \<le> w"
    if "(row, col, w) \<in> set (entries link_mat)" for row col w
  proof -
    from that obtain s d where t: "(s, d, w) \<in> set (concat (map row_triples lines))"
      and rc: "row = nat d" "col = nat s" by (auto simp: ent)
    from t obtain line where "(s, d, w) \<in> set (row_triples line)" by auto
    from row_triples_mem [OF this] have "0 \<le> w" by simp
    moreover from range t have "0 \<le> s" "s < num_pages" "0 \<le> d" "d < num_pages" by blast+
    ultimately show ?thesis using rc shape by simp
  qed
  have column: "if dangle_vec ! s = 0 then col_sum link_mat s = 1
      else dangle_vec ! s = 1 \<and>
           list_all (\<lambda>(row, col, w). col = s \<longrightarrow> w = 0) (entries link_mat)"
    if s: "s < length dangle_vec" for s
  proof -
    from s len n have sn: "s < nat n" by simp
    note f = accepted_flags [OF acc sn]
    show ?thesis
    proof (cases "dangle_vec ! s = 0")
      case True
      with f have "\<exists>(row, col, w)\<in>set (entries link_mat). col = s" by auto
      then obtain row w where "(row, s, w) \<in> set (entries link_mat)" by auto
      from accepted_entry_row [OF acc this] have "rows_of (int s) lines \<noteq> []" by auto
      then have "0 < length (rows_of (int s) lines)" by simp
      moreover from single sn have "length (rows_of (int s) lines) \<le> 1" by blast
      ultimately have "length (rows_of (int s) lines) = 1" by linarith
      with True show ?thesis by (simp add: col_sum_rows [OF acc])
    next
      case False
      with f have "dangle_vec ! s = 1" "\<forall>(row, col, w)\<in>set (entries link_mat). col \<noteq> s"
        by auto
      with False show ?thesis by (auto simp: list_all_iff)
    qed
  qed
  have "list_all (\<lambda>(row, col, w). row < nrows link_mat \<and> col < ncols link_mat \<and> 0 \<le> w)
          (entries link_mat)"
    using inside by (auto simp: list_all_iff)
  moreover have "list_all (\<lambda>s. if dangle_vec ! s = 0 then col_sum link_mat s = 1
                     else dangle_vec ! s = 1 \<and>
                          list_all (\<lambda>(row, col, w). col = s \<longrightarrow> w = 0) (entries link_mat))
        [0..<length dangle_vec]"
    unfolding list_all_iff [of _ "[0..<length dangle_vec]"] using column by simp
  ultimately show ?thesis
    using shape len by (simp add: loader_contract_def)
qed

lemma pageRank_loop_contract:
  assumes c: "loader_contract link_mat dangle_vec" and n: "1 \<le> length dangle_vec"
    and d: "0 \<le> damp" "damp \<le> 1"
    and st: "prob_dist (rvec st)" "length (rvec st) = length dangle_vec" "iters st \<le> max_iters"
  shows "\<exists>st' stop. pageRank_loop link_mat dangle_vec damp eps max_iters
            (replicate (length dangle_vec) (1 / real (length dangle_vec))) st
           = Some (Inr (st', stop)) \<and> prob_dist (rvec st')"
  using st
proof (induction "nat (max_iters - iters st)" arbitrary: st)
  case 0
  then have "iters st = max_iters" by simp
  with 0 show ?case by (subst pageRank_loop.simps) simp
next
  case (Suc k)
  let ?u = "replicate (length dangle_vec) (1 / real (length dangle_vec))"
  from iteration_contract [OF n d c Suc.prems(1,2)] obtain r' res where
    it: "iteration link_mat dangle_vec damp ?u (rvec st) = Inr (r', res)"
    and r': "prob_dist r'" "length r' = length dangle_vec" by blast
  let ?st = "\<lparr>rvec = r', residual = res, iters = iters st + 1\<rparr>"
  from Suc.hyps(2) Suc.prems(3) have "k = nat (max_iters - iters ?st)" "iters ?st \<le> max_iters"
    by simp_all
  from Suc.hyps(1) [OF this(1) _ _ this(2)] r' obtain st' stop where
    "pageRank_loop link_mat dangle_vec damp eps max_iters ?u ?st = Some (Inr (st', stop))"
    "prob_dist (rvec st')" by auto
  with it Suc.prems(1) show ?case by (subst pageRank_loop.simps) auto
qed

lemma pageRank_contract:
  assumes "loader_contract link_mat dangle_vec" and "1 \<le> length dangle_vec"
    and "0 \<le> damp" "damp \<le> 1" and "0 \<le> eps" and "0 \<le> max_iters"
  shows "\<exists>r res it stop. pageRank link_mat dangle_vec damp eps max_iters
           = Some (Inr (r, res, it, stop)) \<and> prob_dist r"
proof -
  let ?n = "length dangle_vec"
  let ?u = "replicate ?n (1 / real ?n)"
  have "0 < ?n" using assms(2) by (cases dangle_vec) simp_all
  then have u: "prob_dist ?u" by (simp add: prob_dist_def list_all_iff sum_list_replicate)
  from pageRank_loop_contract [OF assms(1-4), of "\<lparr>rvec = ?u, residual = eps + 1, iters = 0\<rparr>"
      max_iters eps] u assms(6)
  obtain st' stop where loop: "pageRank_loop link_mat dangle_vec damp eps max_iters ?u
      \<lparr>rvec = ?u, residual = eps + 1, iters = 0\<rparr> = Some (Inr (st', stop))"
    and p: "prob_dist (rvec st')" by auto
  from p have "norm1 (rvec st') = 1" by (simp add: prob_dist_def norm1_nonneg_eq)
  with loop p assms show ?thesis
    by (simp add: pageRank_def Let_def loader_contract_def)
qed


lemma file_to_ranks:
  assumes "readLinksFile num_pages num_links lines = Inr (n, link_mat, dangle_vec)"
    and "1 \<le> n" and "\<forall>s<nat n. length (rows_of (int s) lines) \<le> 1"
  shows "\<exists>r res it stop. pageRank_default link_mat dangle_vec = Some (Inr (r, res, it, stop)) \<and>
           prob_dist r"
proof -
  from readLinksFile_Inr [OF assms(1)] have "n = num_pages" "length dangle_vec = nat num_pages"
    by blast+
  with assms(2) have "1 \<le> length dangle_vec" by simp
  with accepted_contract [OF assms(1,3)] show ?thesis
    unfolding pageRank_default_def by (intro pageRank_contract) simp_all
qed

section \<open>The worked example\<close>

lemma upt_3: "[0..<3] = [0, 1, 2]"
  by (simp add: upt_rec numeral_3_eq_3)

text \<open>
  C8: for the input with 3 pages and 4 links, \<open>0 \<rightarrow> 1\<close>, \<open>0 \<rightarrow> 2\<close>, \<open>1 \<rightarrow> 2\<close>,
  \<open>2 \<rightarrow> 0\<close>, \<open>pageRank\<close> with \<open>damp = 0.85\<close> and the default \<open>eps\<close> and
  \<open>max_iters\<close> stops with the reason \<open>residual\<close>, and in the vector it returns
  node 2 has the strictly highest rank and node 1 the strictly lowest.
\<close>

theorem worked_example:
  "(case readLinksFile 3 4 example_rows of
      Inl e \<Rightarrow> False
    | Inr (n, link_mat, dangle_vec) \<Rightarrow>
        (case pageRank link_mat dangle_vec 0.85 0.0000001 50 of
           Some (Inr (r, res, it, stop)) \<Rightarrow>
             stop = ''residual'' \<and> res \<le> 0.0000001 \<and> length r = 3 \<and>
             r ! 0 < r ! 2 \<and> r ! 1 < r ! 2 \<and> r ! 1 < r ! 0
         | _ \<Rightarrow> False))"
  by (simp add: example_loaded pageRank_def pageRank_loop.simps iteration_def unnormalized_def
      matvec_def upt_3 dot_def scale_def vadd_def vsub_def norm1_def Let_def)


end
